theory Spec2Isabelle
  imports Main "HOL-Library.Word"
begin

unbundle bit_operations_syntax

section \<open>Machine types, constants and failures\<close>

text \<open>
  The program works on \<open>uint8_t\<close> bytes and \<open>uint16_t\<close> directory words. Indices into
  the 512-word segment buffers are natural numbers; where the source narrows an index with
  \<open>static_cast<uint16_t>\<close> the reduction modulo \<open>65536\<close> is written out.
\<close>

type_synonym byte = "8 word"
type_synonym word16 = "16 word"

text \<open>
  Every \<open>throw std::runtime_error\<close> of the source is one constructor. Two more
  constructors stand for undefined behaviour of the C++ program: a read past the end of the
  40-entry \<open>RAD50_TABLE\<close>, and an access past the end of a 512-word segment buffer.
\<close>

datatype error =
    SeekReadFailed nat
  | BufferSizeMismatch
  | FirstDirBlockOutOfRange
  | InvalidTotalSegments
  | DirectoryLinkLoop
  | SegmentNotInChain
  | DirectoryFull
  | EmptySegment
  | SourceMissing
  | NameMissing
  | ImageEmpty
  | NoEmptyArea
  | InvalidRange
  | ChosenAreaTooSmall
  | TableIndexOutOfBounds nat
  | SegmentBufferOverrun nat

definition E_TENT :: word16 where "E_TENT = 0x0100"
definition E_MPTY :: word16 where "E_MPTY = 0x0200"
definition E_PERM :: word16 where "E_PERM = 0x0400"
definition E_EOS :: word16 where "E_EOS = 0x0800"

section \<open>RAD50 name codec\<close>

definition RAD50_TABLE :: "char list" where
  "RAD50_TABLE = '' ABCDEFGHIJKLMNOPQRSTUVWXYZ$.%0123456789''"

text \<open>\<open>std::toupper\<close> in the default "C" locale, on one \<open>unsigned char\<close>.\<close>

definition toupper :: "char \<Rightarrow> char" where
  "toupper c =
     (let n = (of_char c :: nat)
      in if 97 \<le> n \<and> n \<le> 122 then char_of (n - 32) else c)"

text \<open>
  The search loop of \<open>rad50Index\<close>: \<open>rad50Scan ts i c\<close> is the loop standing at index
  \<open>i\<close> with the table entries \<open>ts\<close> still to compare; falling off the end returns 0.
\<close>

fun rad50Scan :: "char list \<Rightarrow> nat \<Rightarrow> char \<Rightarrow> nat" where
  "rad50Scan [] i c = 0"
| "rad50Scan (t # ts) i c = (if t = c then i else rad50Scan ts (Suc i) c)"

definition rad50Index :: "char \<Rightarrow> nat" where
  "rad50Index c = rad50Scan RAD50_TABLE 0 (toupper c)"

definition encodeRad50 :: "string \<Rightarrow> word16" where
  "encodeRad50 s3 =
     (let c1 = (if length s3 > 0 then s3 ! 0 else CHR '' '');
          c2 = (if length s3 > 1 then s3 ! 1 else CHR '' '');
          c3 = (if length s3 > 2 then s3 ! 2 else CHR '' '');
          i1 = rad50Index c1;
          i2 = rad50Index c2;
          i3 = rad50Index c3
      in of_nat (i1 * 1600 + i2 * 40 + i3))"

text \<open>
  The three subscripts that \<open>decodeRad50\<close> applies to \<open>RAD50_TABLE\<close>:
  \<open>w / 1600\<close>, then with \<open>w %= 1600\<close> the values \<open>w / 40\<close> and \<open>w % 40\<close>.
\<close>

definition rad50Indices :: "word16 \<Rightarrow> nat \<times> nat \<times> nat" where
  "rad50Indices w =
     (let i1 = unat w div 1600;
          w' = unat w mod 1600
      in (i1, w' div 40, w' mod 40))"

text \<open>One read \<open>RAD50_TABLE[i]\<close>; the array has 40 elements.\<close>

definition tableAt :: "nat \<Rightarrow> error + char" where
  "tableAt i = (if i < 40 then Inr (RAD50_TABLE ! i) else Inl (TableIndexOutOfBounds i))"

definition decodeRad50 :: "word16 \<Rightarrow> error + string" where
  "decodeRad50 w =
     (case rad50Indices w of (i1, i2, i3) \<Rightarrow>
        (case tableAt i1 of Inl e \<Rightarrow> Inl e | Inr c1 \<Rightarrow>
        (case tableAt i2 of Inl e \<Rightarrow> Inl e | Inr c2 \<Rightarrow>
        (case tableAt i3 of Inl e \<Rightarrow> Inl e | Inr c3 \<Rightarrow>
           Inr ((if c1 \<noteq> CHR '' '' then [c1] else []) @
                (if c2 \<noteq> CHR '' '' then [c2] else []) @
                (if c3 \<noteq> CHR '' '' then [c3] else []))))))"

definition decodeFileName :: "word16 \<Rightarrow> word16 \<Rightarrow> word16 \<Rightarrow> error + string" where
  "decodeFileName name1 name2 ext =
     (case decodeRad50 name1 of Inl e \<Rightarrow> Inl e | Inr a \<Rightarrow>
     (case decodeRad50 name2 of Inl e \<Rightarrow> Inl e | Inr b \<Rightarrow>
       (let base0 = a @ b;
            base = (if length base0 > 6 then take 6 base0 else base0)
        in case decodeRad50 ext of Inl e \<Rightarrow> Inl e | Inr x \<Rightarrow>
             (let extension = (if length x > 3 then take 3 x else x)
              in if extension = [] then Inr base
                 else Inr (base @ ''.'' @ extension)))))"

section \<open>Packed dates\<close>

definition monthNames :: "string list" where
  "monthNames = ['''', ''Jan'', ''Feb'', ''Mar'', ''Apr'', ''May'', ''Jun'',
                 ''Jul'', ''Aug'', ''Sep'', ''Oct'', ''Nov'', ''Dec'']"

definition digitChar :: "nat \<Rightarrow> char" where
  "digitChar d = char_of (48 + d)"

text \<open>
  \<open>std::setw(2) << std::setfill('0')\<close> applied to a value below 100, the only values
  \<open>formatRt11Date\<close> prints (a day of at most 31 and \<open>year % 100\<close>).
\<close>

definition setw2 :: "nat \<Rightarrow> string" where
  "setw2 n = [digitChar (n div 10), digitChar (n mod 10)]"

text \<open>The four bit fields \<open>age\<close>, \<open>month\<close>, \<open>day\<close> and \<open>yl\<close> of a date word.\<close>

definition dateAge :: "word16 \<Rightarrow> nat" where
  "dateAge dateWord = unat (drop_bit 14 dateWord AND 0x3)"

definition dateMonth :: "word16 \<Rightarrow> nat" where
  "dateMonth dateWord = unat (drop_bit 10 dateWord AND 0xF)"

definition dateDay :: "word16 \<Rightarrow> nat" where
  "dateDay dateWord = unat (drop_bit 5 dateWord AND 0x1F)"

definition dateYear :: "word16 \<Rightarrow> nat" where
  "dateYear dateWord = 1972 + unat (dateWord AND 0x1F) + 32 * dateAge dateWord"

definition formatRt11Date :: "word16 \<Rightarrow> string" where
  "formatRt11Date dateWord =
     (if dateWord = 0 then ''        ''
      else
        let month = dateMonth dateWord;
            day = dateDay dateWord;
            year = dateYear dateWord
        in if month < 1 \<or> month > 12 \<or> day < 1 \<or> day > 31 then ''        ''
           else setw2 day @ ''-'' @ monthNames ! month @ ''-'' @ setw2 (year mod 100))"

text \<open>
  \<open>encodeRt11Date\<close>. The arguments are C \<open>int\<close>s; after the two range checks every
  intermediate value is between 0 and 2099, so no \<open>int\<close> operation overflows and the
  division has a non-negative dividend. The day field is built from \<open>day && 0x1F\<close>, the
  logical conjunction of the source, which is the integer 1 or 0.
\<close>

definition logicalAnd :: "int \<Rightarrow> int \<Rightarrow> int" where
  "logicalAnd a b = (if a \<noteq> 0 \<and> b \<noteq> 0 then 1 else 0)"

definition encodeRt11Date :: "int \<Rightarrow> int \<Rightarrow> int \<Rightarrow> word16" where
  "encodeRt11Date year month day =
     (if year < 1972 \<or> year > 2099 then 0
      else if month < 1 \<or> month > 12 \<or> day < 1 \<or> day > 31 then 0
      else
        let yearOffset = year - 1972;
            age0 = yearOffset div 32;
            age = (if age0 > 3 then 3 else age0);
            base = 1972 + age * 32;
            yearLow0 = year - base;
            yearLow = (if yearLow0 < 0 then 0 else yearLow0)
        in (0 :: word16)
             OR word_of_int (push_bit 14 (age AND 0x3))
             OR word_of_int (push_bit 10 (month AND 0xF))
             OR word_of_int (push_bit 5 (logicalAnd day 0x1F))
             OR word_of_int (yearLow AND 0x1F))"

text \<open>
  \<open>encodeRt11DateFromSystem\<close> with the local time as arguments: the sibling encoder,
  which builds the day field from \<open>day & 0x1F\<close>.
\<close>

definition encodeRt11DateFromSystem :: "int \<Rightarrow> int \<Rightarrow> int \<Rightarrow> word16" where
  "encodeRt11DateFromSystem year month day =
     (if year < 1972 then 0
      else
        let yearOffset = year - 1972;
            age0 = yearOffset div 32;
            age = (if age0 > 3 then 3 else age0);
            base = 1972 + age * 32;
            yearLow0 = year - base;
            yearLow = (if yearLow0 < 0 then 0 else yearLow0)
        in if month < 1 \<or> month > 12 \<or> day < 1 \<or> day > 31 then 0
           else (0 :: word16)
             OR word_of_int (push_bit 14 (age AND 0x3))
             OR word_of_int (push_bit 10 (month AND 0xF))
             OR word_of_int (push_bit 5 (day AND 0x1F))
             OR word_of_int (yearLow AND 0x1F))"


section \<open>The disk image and its blocks\<close>

text \<open>
  The image file is the sequence of its whole 512-byte blocks; \<open>totalBlocks\<close>, which the
  callers compute as the file size divided by \<open>BLOCK_SIZE\<close>, is the length of that
  sequence. The field \<open>written\<close> is not in the file: it records, in order, the block
  numbers passed to \<open>writeBlock\<close>, so that the order of the commits can be stated.
\<close>

definition BLOCK_SIZE :: nat where "BLOCK_SIZE = 512"
definition DIR_SEGMENT_BLOCKS :: nat where "DIR_SEGMENT_BLOCKS = 2"

type_synonym block = "byte list"

record disk =
  blocks :: "block list"
  written :: "nat list"

text \<open>
  \<open>readBlock\<close> fails when the block is not wholly inside the file. \<open>writeBlock\<close>
  refuses a buffer of the wrong size; a write past the end of an \<open>fstream\<close> extends the
  file, the gap reading as zero bytes.
\<close>

definition readBlock :: "disk \<Rightarrow> nat \<Rightarrow> error + block" where
  "readBlock f blk =
     (if blk < length (blocks f) then Inr (blocks f ! blk) else Inl (SeekReadFailed blk))"

definition writeBlock :: "disk \<Rightarrow> nat \<Rightarrow> block \<Rightarrow> error + disk" where
  "writeBlock f blk buf =
     (if length buf \<noteq> BLOCK_SIZE then Inl BufferSizeMismatch
      else if blk < length (blocks f)
        then Inr (f\<lparr>blocks := (blocks f)[blk := buf], written := written f @ [blk]\<rparr>)
        else Inr (f\<lparr>blocks := blocks f
                          @ replicate (blk - length (blocks f)) (replicate BLOCK_SIZE 0)
                          @ [buf],
                      written := written f @ [blk]\<rparr>))"

text \<open>
  The little-endian conversions that the source writes out as loops at every read and
  write of a segment: \<open>words[i] = buf[2*i] | (buf[2*i+1] << 8)\<close> and
  \<open>buf[2*i] = words[i] & 0xFF; buf[2*i+1] = (words[i] >> 8) & 0xFF\<close>.
\<close>

definition leWord :: "byte \<Rightarrow> byte \<Rightarrow> word16" where
  "leWord lo hi = ucast lo OR push_bit 8 (ucast hi)"

definition blockWords :: "block \<Rightarrow> word16 list" where
  "blockWords buf = map (\<lambda>i. leWord (buf ! (2 * i)) (buf ! (2 * i + 1))) [0..<256]"

definition wordsBlock :: "word16 list \<Rightarrow> nat \<Rightarrow> block" where
  "wordsBlock ws off =
     map (\<lambda>j. if even j then ucast (ws ! (off + j div 2) AND 0x00FF)
               else ucast (drop_bit 8 (ws ! (off + j div 2)) AND 0x00FF))
         [0..<512]"

text \<open>Reading the two blocks of a segment into \<open>uint16_t words[512]\<close>.\<close>

definition readSegmentWords :: "disk \<Rightarrow> nat \<Rightarrow> error + word16 list" where
  "readSegmentWords f segBlock =
     (case readBlock f segBlock of Inl e \<Rightarrow> Inl e | Inr b0 \<Rightarrow>
     (case readBlock f (segBlock + 1) of Inl e \<Rightarrow> Inl e | Inr b1 \<Rightarrow>
        Inr (blockWords b0 @ blockWords b1)))"

text \<open>
  Writing 512 words back as two blocks: first block \<open>segBlock\<close>, then
  \<open>segBlock + 1\<close>. The result carries the image also when a write fails.
\<close>

definition writeSegmentWords :: "disk \<Rightarrow> nat \<Rightarrow> word16 list \<Rightarrow> (error + unit) \<times> disk" where
  "writeSegmentWords f segBlock ws =
     (case writeBlock f segBlock (wordsBlock ws 0) of Inl e \<Rightarrow> (Inl e, f) | Inr f1 \<Rightarrow>
     (case writeBlock f1 (segBlock + 1) (wordsBlock ws 256) of Inl e \<Rightarrow> (Inl e, f1)
      | Inr f2 \<Rightarrow> (Inr (), f2)))"

definition getFirstDirectoryBlock :: "disk \<Rightarrow> error + nat" where
  "getFirstDirectoryBlock f =
     (case readBlock f 1 of Inl e \<Rightarrow> Inl e | Inr buf \<Rightarrow>
        (let firstDirBlock = blockWords buf ! 234
         in if firstDirBlock = 0 then Inr 6 else Inr (unat firstDirBlock)))"

section \<open>Directory segments and entries\<close>

record Rt11Entry =
  name :: string
  startBlock :: nat
  lengthBlocks :: nat
  status :: word16
  dateWord :: word16
  tentative :: bool
  empty' :: bool
  permanent :: bool
  eos :: bool
  segNumber :: nat
  wordIndex :: nat

record DirSegmentHeader =
  totalSegments :: nat
  nextSegment :: nat
  highestInUse :: nat
  extraBytes :: nat
  dataStartBlock :: nat

definition parseSegmentHeader :: "word16 list \<Rightarrow> DirSegmentHeader" where
  "parseSegmentHeader ws =
     \<lparr>totalSegments = unat (ws ! 0), nextSegment = unat (ws ! 1),
      highestInUse = unat (ws ! 2), extraBytes = unat (ws ! 3),
      dataStartBlock = unat (ws ! 4)\<rparr>"

text \<open>\<open>entryWordsSeg = 7 + hdr.extraBytes / 2\<close>, at most 32774.\<close>

definition entryWords :: "DirSegmentHeader \<Rightarrow> nat" where
  "entryWords hdr = 7 + extraBytes hdr div 2"

text \<open>
  The physical block of a logical segment, \<open>firstDirBlock + (segNum - 1) * 2\<close>. Every
  call site has checked \<open>segNum \<ge> 1\<close>, and the sum stays below \<open>2^32\<close> for 16-bit
  operands.
\<close>

definition segmentBlock :: "nat \<Rightarrow> nat \<Rightarrow> nat" where
  "segmentBlock firstDirBlock segNum = firstDirBlock + (segNum - 1) * DIR_SEGMENT_BLOCKS"

section \<open>readDirectory\<close>

text \<open>
  The inner loop of \<open>readDirectory\<close>, standing at word index \<open>idx\<close> with the running
  offset \<open>off\<close> (\<open>globalCumulativeOffset\<close>, a \<open>uint32_t\<close>) and the entries pushed so
  far. The start block is narrowed to \<open>uint16_t\<close>.
\<close>

function parseEntries ::
  "word16 list \<Rightarrow> nat \<Rightarrow> DirSegmentHeader \<Rightarrow> nat \<Rightarrow> nat \<Rightarrow> nat \<Rightarrow> Rt11Entry list
     \<Rightarrow> error + (Rt11Entry list \<times> nat)"
where
  "parseEntries ws currentSegNum hdr dataStart idx off entries =
     (if idx + entryWords hdr \<le> 512 then
        (let st = ws ! idx
         in if st AND E_EOS \<noteq> 0 then Inr (entries, off)
            else if st = 0 then Inr (entries, off)
            else
              (case decodeFileName (ws ! (idx + 1)) (ws ! (idx + 2)) (ws ! (idx + 3)) of
                 Inl e \<Rightarrow> Inl e
               | Inr nm \<Rightarrow>
                  (let len = unat (ws ! (idx + 4));
                       dateW = ws ! (idx + 6);
                       start = (dataStart + off) mod 4294967296;
                       e = \<lparr>name = nm, startBlock = start mod 65536, lengthBlocks = len,
                            status = st, dateWord = dateW,
                            tentative = (st AND E_TENT \<noteq> 0),
                            empty' = (st AND E_MPTY \<noteq> 0),
                            permanent = (st AND E_PERM \<noteq> 0),
                            eos = (st AND E_EOS \<noteq> 0),
                            segNumber = currentSegNum, wordIndex = idx\<rparr>
                   in parseEntries ws currentSegNum hdr dataStart
                        ((idx + entryWords hdr) mod 65536)
                        ((off + len) mod 4294967296)
                        (entries @ [e]))))
      else Inr (entries, off))"
  by pat_completeness auto
termination
  by (relation "measure (\<lambda>(ws, seg, hdr, ds, idx, off, es). 513 - idx)")
     (auto simp: entryWords_def)

declare parseEntries.simps [simp del]

datatype warning =
    InvalidSegmentNumber nat
  | DirectoryLoop nat
  | BeyondVolume nat

text \<open>
  The outer loop of \<open>readDirectory\<close>. \<open>visitedSegments\<close>, a \<open>vector<bool>\<close> indexed by
  segment number, is the set of the segment numbers whose element is true. The loop ends
  without a warning at link 0, and with one of the three warnings at a \<open>break\<close>.
\<close>

function walkChain ::
  "disk \<Rightarrow> nat \<Rightarrow> nat \<Rightarrow> nat \<Rightarrow> nat \<Rightarrow> nat \<Rightarrow> nat set \<Rightarrow> nat \<Rightarrow> Rt11Entry list
     \<Rightarrow> error + (Rt11Entry list \<times> warning option)"
where
  "walkChain f totalBlocks firstDirBlock nsegs dataStart currentSegNum visited off entries =
     (if currentSegNum = 0 then Inr (entries, None)
      else if currentSegNum < 1 \<or> currentSegNum > nsegs
        then Inr (entries, Some (InvalidSegmentNumber currentSegNum))
      else if currentSegNum \<in> visited
        then Inr (entries, Some (DirectoryLoop currentSegNum))
      else if segmentBlock firstDirBlock currentSegNum + 1 \<ge> totalBlocks
        then Inr (entries, Some (BeyondVolume currentSegNum))
      else
        (case readSegmentWords f (segmentBlock firstDirBlock currentSegNum) of
           Inl e \<Rightarrow> Inl e
         | Inr ws \<Rightarrow>
            (case parseEntries ws currentSegNum (parseSegmentHeader ws) dataStart 5 off entries of
               Inl e \<Rightarrow> Inl e
             | Inr (entries', off') \<Rightarrow>
                 walkChain f totalBlocks firstDirBlock nsegs dataStart
                   (nextSegment (parseSegmentHeader ws))
                   (insert currentSegNum visited) off' entries')))"
  by pat_completeness auto
termination
proof (relation "measure (\<lambda>(f, tb, fd, nsegs, ds, cur, visited, off, es).
                  card ({1..nsegs} - visited))", goal_cases)
  case 1
  show ?case by simp
next
  case (2 f totalBlocks firstDirBlock nsegs dataStart currentSegNum visited off entries)
  from 2(1,2,3) have m: "currentSegNum \<in> {1..nsegs} - visited" by simp
  have lt: "card ({1..nsegs} - visited - {currentSegNum}) < card ({1..nsegs} - visited)"
    by (rule card_Diff1_less) (use m in simp_all)
  have eq: "{1..nsegs} - insert currentSegNum visited = {1..nsegs} - visited - {currentSegNum}"
    by (rule Diff_insert)
  have "card ({1..nsegs} - insert currentSegNum visited) < card ({1..nsegs} - visited)"
    unfolding eq by (rule lt)
  then show ?case by simp
qed

declare walkChain.simps [simp del]

definition readDirectory :: "disk \<Rightarrow> nat \<Rightarrow> error + (Rt11Entry list \<times> warning option)" where
  "readDirectory f totalBlocks =
     (case getFirstDirectoryBlock f of Inl e \<Rightarrow> Inl e | Inr firstDirBlock \<Rightarrow>
        if firstDirBlock \<ge> totalBlocks then Inl FirstDirBlockOutOfRange
        else
          (case readSegmentWords f firstDirBlock of Inl e \<Rightarrow> Inl e | Inr segWords \<Rightarrow>
             (let firstHeader = parseSegmentHeader segWords;
                  nsegs = (if totalSegments firstHeader = 0 \<or> totalSegments firstHeader > 31
                           then 1 else totalSegments firstHeader)
              in walkChain f totalBlocks firstDirBlock nsegs (dataStartBlock firstHeader)
                   1 {} 0 [])))"


section \<open>splitDirectorySegment\<close>

text \<open>
  Step 2, the walk that marks the segments linked into the chain. \<open>used\<close>, a
  \<open>vector<bool>\<close> indexed by segment number, is the set of the marked numbers. The vector
  \<open>chain\<close> that the source fills beside it is never read and is left out.
\<close>

function chainWalk :: "disk \<Rightarrow> nat \<Rightarrow> nat \<Rightarrow> nat \<Rightarrow> nat set \<Rightarrow> error + nat set" where
  "chainWalk f firstDirBlock nsegs currentSeg used =
     (if currentSeg \<noteq> 0 \<and> currentSeg \<ge> 1 \<and> currentSeg \<le> nsegs then
        (if currentSeg \<in> used then Inl DirectoryLinkLoop
         else
           (case readSegmentWords f (segmentBlock firstDirBlock currentSeg) of
              Inl e \<Rightarrow> Inl e
            | Inr w \<Rightarrow>
                chainWalk f firstDirBlock nsegs (unat (w ! 1)) (insert currentSeg used)))
      else Inr used)"
  by pat_completeness auto
termination
proof (relation "measure (\<lambda>(f, fd, nsegs, cur, used). card ({1..nsegs} - used))", goal_cases)
  case 1
  show ?case by simp
next
  case (2 f firstDirBlock nsegs currentSeg used)
  from 2(1,2) have m: "currentSeg \<in> {1..nsegs} - used" by simp
  have lt: "card ({1..nsegs} - used - {currentSeg}) < card ({1..nsegs} - used)"
    by (rule card_Diff1_less) (use m in simp_all)
  have eq: "{1..nsegs} - insert currentSeg used = {1..nsegs} - used - {currentSeg}"
    by (rule Diff_insert)
  have "card ({1..nsegs} - insert currentSeg used) < card ({1..nsegs} - used)"
    unfolding eq by (rule lt)
  then show ?case by simp
qed

declare chainWalk.simps [simp del]

text \<open>Step 5, the loop that collects the word index of every entry before the sentinel.\<close>

function collectEntryIdx :: "word16 list \<Rightarrow> DirSegmentHeader \<Rightarrow> nat \<Rightarrow> nat list \<Rightarrow> nat list" where
  "collectEntryIdx ws hdr idx entryIdx =
     (if idx + entryWords hdr \<le> 512 then
        (let st = ws ! idx
         in if st AND E_EOS \<noteq> 0 then entryIdx
            else if st = 0 then entryIdx
            else collectEntryIdx ws hdr ((idx + entryWords hdr) mod 65536) (entryIdx @ [idx]))
      else entryIdx)"
  by pat_completeness auto
termination
  by (relation "measure (\<lambda>(ws, hdr, idx, acc). 513 - idx)") (auto simp: entryWords_def)

declare collectEntryIdx.simps [simp del]

text \<open>
  Step 6, the choice of the split point \<open>midPos\<close>, a position in \<open>entryIdx\<close>. The list is
  not empty here, so \<open>entryIdx.size() - 1\<close> does not wrap.
\<close>

definition movablePositions :: "word16 list \<Rightarrow> nat list \<Rightarrow> nat list" where
  "movablePositions ws entryIdx =
     filter (\<lambda>i. ws ! (entryIdx ! i) AND (E_PERM OR E_TENT) \<noteq> 0) [0..<length entryIdx]"

definition chooseMidPos :: "word16 list \<Rightarrow> nat list \<Rightarrow> nat" where
  "chooseMidPos ws entryIdx =
     (let movable = movablePositions ws entryIdx;
          midPos = (if movable \<noteq> [] then movable ! (length movable div 2)
                    else length entryIdx div 2)
      in if midPos \<ge> length entryIdx - 1 then length entryIdx div 2 else midPos)"

text \<open>
  Step 8, the loop that copies the entries from the split point on to the top of the new
  segment: the inner loop copies the \<open>entryWords\<close> words of one entry.
\<close>

definition copyEntry :: "word16 list \<Rightarrow> nat \<Rightarrow> nat \<Rightarrow> nat \<Rightarrow> word16 list \<Rightarrow> word16 list" where
  "copyEntry ws ew srcIdxEntry destIdxEntry newWords =
     fold (\<lambda>w nw. nw[destIdxEntry + w := ws ! (srcIdxEntry + w)]) [0..<ew] newWords"

fun moveEntries ::
  "word16 list \<Rightarrow> nat \<Rightarrow> nat list \<Rightarrow> nat \<Rightarrow> word16 list \<Rightarrow> word16 list \<times> nat" where
  "moveEntries ws ew [] entriesMoved newWords = (newWords, entriesMoved)"
| "moveEntries ws ew (srcIdxEntry # rest) entriesMoved newWords =
     (let destIdxEntry = (5 + entriesMoved * ew) mod 65536
      in if destIdxEntry + ew > 512 then (newWords, entriesMoved)
         else moveEntries ws ew rest (Suc entriesMoved)
                (copyEntry ws ew srcIdxEntry destIdxEntry newWords))"

definition buildNewSegment :: "word16 list \<Rightarrow> DirSegmentHeader \<Rightarrow> nat list \<Rightarrow> nat \<Rightarrow> word16 list" where
  "buildNewSegment ws hdr entryIdx midPos =
     (let originalLink = ws ! 1;
          header = (replicate 512 0)
                     [0 := ws ! 0, 1 := originalLink, 2 := ws ! 2, 3 := ws ! 3, 4 := ws ! 4]
      in case moveEntries ws (entryWords hdr) (drop midPos entryIdx) 0 header of
           (newWords, entriesMoved) \<Rightarrow>
             (let newEosIdx = (5 + entriesMoved * entryWords hdr) mod 65536
              in if newEosIdx < 512 then newWords[newEosIdx := E_EOS] else newWords))"

text \<open>
  \<open>splitDirectorySegment\<close>. The result carries the image as the call leaves it, also
  when the call throws. \<open>seg1Words\<close> is the copy of segment 1 read in step 1; step 10
  writes that copy back with word 2 changed.
\<close>

definition splitDirectorySegment :: "disk \<Rightarrow> nat \<Rightarrow> (error + unit) \<times> disk" where
  "splitDirectorySegment f segToSplit =
     (case getFirstDirectoryBlock f of Inl e \<Rightarrow> (Inl e, f) | Inr firstDirBlock \<Rightarrow>
     (case readSegmentWords f firstDirBlock of Inl e \<Rightarrow> (Inl e, f) | Inr seg1Words \<Rightarrow>
       (let seg1Hdr = parseSegmentHeader seg1Words;
            nsegs = totalSegments seg1Hdr
        in if nsegs = 0 \<or> nsegs > 31 then (Inl InvalidTotalSegments, f)
           else
     (case chainWalk f firstDirBlock nsegs 1 {} of Inl e \<Rightarrow> (Inl e, f) | Inr used \<Rightarrow>
        if segToSplit < 1 \<or> segToSplit > nsegs \<or> segToSplit \<notin> used
        then (Inl SegmentNotInChain, f)
        else
     (case find (\<lambda>s. s \<notin> used) [1..<Suc nsegs] of
        None \<Rightarrow> (Inl DirectoryFull, f)
      | Some newSegNum \<Rightarrow>
     (case readSegmentWords f (segmentBlock firstDirBlock segToSplit) of
        Inl e \<Rightarrow> (Inl e, f)
      | Inr ws \<Rightarrow>
       (let hdr = parseSegmentHeader ws;
            entryIdx = collectEntryIdx ws hdr 5 []
        in if entryIdx = [] then (Inl EmptySegment, f)
           else
             (let midPos = chooseMidPos ws entryIdx;
                  middleIdx = entryIdx ! midPos;
                  oldSegWords = ws[middleIdx := E_EOS, 1 := of_nat newSegNum]
              in
     (case writeSegmentWords f (segmentBlock firstDirBlock segToSplit) oldSegWords of
        (Inl e, f1) \<Rightarrow> (Inl e, f1)
      | (Inr u, f1) \<Rightarrow>
       (let newWords = buildNewSegment ws hdr entryIdx midPos;
            newSegBlock = segmentBlock firstDirBlock newSegNum
        in
     (case readBlock f1 newSegBlock of Inl e \<Rightarrow> (Inl e, f1) | Inr nb0 \<Rightarrow>
     (case readBlock f1 (newSegBlock + 1) of Inl e \<Rightarrow> (Inl e, f1) | Inr nb1 \<Rightarrow>
     (case writeSegmentWords f1 newSegBlock newWords of
        (Inl e, f2) \<Rightarrow> (Inl e, f2)
      | (Inr u, f2) \<Rightarrow>
       (let oldHighest = highestInUse seg1Hdr;
            newHighest = max oldHighest newSegNum
        in if newHighest \<noteq> oldHighest
           then writeSegmentWords f2 firstDirBlock (seg1Words[2 := of_nat newHighest])
           else (Inr (), f2)))))))))))))))"

section \<open>copySingleToRt11\<close>

definition iequals :: "string \<Rightarrow> string \<Rightarrow> bool" where
  "iequals a b = (length a = length b \<and> map toupper a = map toupper b)"

definition normalizeRt11Name :: "string \<Rightarrow> error + string" where
  "normalizeRt11Name nm =
     (let base = takeWhile (\<lambda>c. c \<noteq> CHR ''.'') nm;
          ext = drop 1 (dropWhile (\<lambda>c. c \<noteq> CHR ''.'') nm)
      in if base = [] then Inl NameMissing
         else
           (let b0 = map toupper base;
                e0 = map toupper ext;
                b = (if length b0 > 6 then take 6 b0 else b0);
                e = (if length e0 > 3 then take 3 e0 else e0)
            in if e = [] then Inr b else Inr (b @ ''.'' @ e)))"

definition encodeFileName :: "string \<Rightarrow> word16 \<times> word16 \<times> word16" where
  "encodeFileName rtname =
     (let base0 = takeWhile (\<lambda>c. c \<noteq> CHR ''.'') rtname;
          ext0 = drop 1 (dropWhile (\<lambda>c. c \<noteq> CHR ''.'') rtname);
          base1 = (if length base0 > 6 then take 6 base0 else base0);
          ext1 = (if length ext0 > 3 then take 3 ext0 else ext0);
          base = base1 @ replicate (6 - length base1) CHR '' '';
          extension = ext1 @ replicate (3 - length ext1) CHR '' ''
      in (encodeRad50 (take 3 base), encodeRad50 (take 3 (drop 3 base)),
          encodeRad50 extension))"

text \<open>
  The number of blocks of the file: its size in bytes divided by the block size, rounded
  up, and 1 for an empty file.
\<close>

definition blocksNeededFor :: "byte list \<Rightarrow> nat" where
  "blocksNeededFor fileData =
     (let blocksNeeded = (length fileData + BLOCK_SIZE - 1) div BLOCK_SIZE
      in if blocksNeeded = 0 then 1 else blocksNeeded)"

text \<open>The first-fit loop over the decoded entries.\<close>

definition findEmptyEntry :: "Rt11Entry list \<Rightarrow> nat \<Rightarrow> Rt11Entry option" where
  "findEmptyEntry entries blocksNeeded =
     find (\<lambda>e. empty' e \<and> \<not> permanent e \<and> \<not> tentative e \<and> lengthBlocks e \<ge> blocksNeeded)
       entries"

text \<open>
  The loop that writes the file data, block \<open>i\<close> going to \<open>start + i\<close>; the last block
  is padded with zero bytes.
\<close>

function writeFileData ::
  "byte list \<Rightarrow> nat \<Rightarrow> nat \<Rightarrow> nat \<Rightarrow> nat \<Rightarrow> disk \<Rightarrow> (error + unit) \<times> disk" where
  "writeFileData fileData start blocksNeeded i offset f =
     (if i < blocksNeeded then
        (let remaining = length fileData - offset;
             toCopy = (if remaining > BLOCK_SIZE then BLOCK_SIZE else remaining);
             blk = take toCopy (drop offset fileData) @ replicate (BLOCK_SIZE - toCopy) 0
         in case writeBlock f (start + i) blk of
              Inl e \<Rightarrow> (Inl e, f)
            | Inr f' \<Rightarrow> writeFileData fileData start blocksNeeded (Suc i) (offset + toCopy) f')
      else (Inr (), f))"
  by pat_completeness auto
termination
  by (relation "measure (\<lambda>(d, start, n, i, offset, f). n - i)") auto

declare writeFileData.simps [simp del]

text \<open>The scan for the current sentinel; it always ends with \<open>eosIdx = scanIdx\<close>.\<close>

function findEos :: "word16 list \<Rightarrow> DirSegmentHeader \<Rightarrow> nat \<Rightarrow> nat" where
  "findEos ws hdr scanIdx =
     (if scanIdx + entryWords hdr \<le> 512 then
        (let st = ws ! scanIdx
         in if st AND E_EOS \<noteq> 0 then scanIdx
            else if st = 0 then scanIdx
            else findEos ws hdr ((scanIdx + entryWords hdr) mod 65536))
      else scanIdx)"
  by pat_completeness auto
termination
  by (relation "measure (\<lambda>(ws, hdr, idx). 513 - idx)") (auto simp: entryWords_def)

declare findEos.simps [simp del]

text \<open>
  The directory update in the buffer \<open>words\<close>: the chosen entry is overwritten, and when
  blocks remain the words from \<open>insertIdx\<close> up to the sentinel are moved up by one entry
  (from the top down), a new empty entry is written at \<open>insertIdx\<close> and a cleared entry
  with the sentinel status right after it. The upward move writes up to word
  \<open>eosIdx - 1 + entryWords\<close>; past word 511 that is a write outside the buffer.
\<close>

definition shiftUp :: "word16 list \<Rightarrow> nat \<Rightarrow> nat \<Rightarrow> nat \<Rightarrow> word16 list" where
  "shiftUp ws ew insertIdx eosIdx =
     fold (\<lambda>i w. w[i + ew := w ! i]) (rev [insertIdx..<eosIdx]) ws"

definition updateSegment ::
  "word16 list \<Rightarrow> DirSegmentHeader \<Rightarrow> nat \<Rightarrow> nat \<Rightarrow> nat \<Rightarrow> nat
     \<Rightarrow> word16 \<times> word16 \<times> word16 \<Rightarrow> word16 \<Rightarrow> error + word16 list" where
  "updateSegment ws hdr idx blocksNeeded remaining eosIdx names dateW =
     (case names of (name1, name2, ext) \<Rightarrow>
       (let ew = entryWords hdr;
            ws1 = ws[idx := E_PERM, idx + 1 := name1, idx + 2 := name2, idx + 3 := ext,
                     idx + 4 := of_nat blocksNeeded, idx + 5 := 0, idx + 6 := dateW]
        in if remaining > 0 then
             (let insertIdx = (idx + ew) mod 65536
              in if insertIdx < eosIdx \<and> eosIdx + ew > 512
                 then Inl (SegmentBufferOverrun (eosIdx - 1 + ew))
                 else
                   (let ws2 = (if insertIdx < eosIdx then shiftUp ws1 ew insertIdx eosIdx
                               else ws1);
                        ws3 = ws2[insertIdx := E_MPTY, insertIdx + 1 := 0, insertIdx + 2 := 0,
                                  insertIdx + 3 := 0, insertIdx + 4 := of_nat remaining,
                                  insertIdx + 5 := 0, insertIdx + 6 := 0];
                        newEosIdx = (insertIdx + ew) mod 65536;
                        ws4 = fold (\<lambda>w a. a[newEosIdx + w := 0]) [0..<ew] ws3
                    in Inr (ws4[newEosIdx := E_EOS])))
           else Inr ws1))"

datatype copied = Skipped | Copied

text \<open>
  One run of the body of \<open>copySingleToRt11\<close>. The body either returns or throws, which
  is \<open>Finished\<close> with the result and the image, or it reaches the recursive call after a
  successful split, which is \<open>Retry\<close> with the image the split left. \<open>src\<close> is the
  content of the source file, \<open>None\<close> when the path does not exist; \<open>sysDate\<close> is the
  word \<open>encodeRt11DateFromSystem()\<close> returns when it is called.
\<close>

datatype attempt = Finished "(error + copied) \<times> disk" | Retry disk

definition copyAttempt ::
  "disk \<Rightarrow> byte list option \<Rightarrow> string \<Rightarrow> bool \<Rightarrow> word16 \<Rightarrow> word16 \<Rightarrow> attempt" where
  "copyAttempt f src baseName noReplace optionalDateWord sysDate =
     (case src of None \<Rightarrow> Finished (Inl SourceMissing, f) | Some fileData \<Rightarrow>
     (case normalizeRt11Name baseName of Inl e \<Rightarrow> Finished (Inl e, f) | Inr rtname \<Rightarrow>
        if blocks f = [] then Finished (Inl ImageEmpty, f)
        else
     (case readDirectory f (length (blocks f)) of Inl e \<Rightarrow> Finished (Inl e, f)
      | Inr (entries, warn) \<Rightarrow>
        if noReplace \<and> list_ex (\<lambda>e. permanent e \<and> iequals (name e) rtname) entries
        then Finished (Inr Skipped, f)
        else
          (let blocksNeeded = blocksNeededFor fileData
           in
     (case findEmptyEntry entries blocksNeeded of
        None \<Rightarrow> Finished (Inl NoEmptyArea, f)
      | Some emptyEntry \<Rightarrow>
          (let start = startBlock emptyEntry;
               endBlock = start + blocksNeeded - 1
           in if start = 0 \<or> endBlock \<ge> length (blocks f) then Finished (Inl InvalidRange, f)
              else
     (case writeFileData fileData start blocksNeeded 0 0 f of
        (Inl e, f1) \<Rightarrow> Finished (Inl e, f1)
      | (Inr u, f1) \<Rightarrow>
     (case getFirstDirectoryBlock f1 of Inl e \<Rightarrow> Finished (Inl e, f1)
      | Inr firstDirBlock \<Rightarrow>
     (case readSegmentWords f1 (segmentBlock firstDirBlock (segNumber emptyEntry)) of
        Inl e \<Rightarrow> Finished (Inl e, f1)
      | Inr ws \<Rightarrow>
          (let hdr = parseSegmentHeader ws;
               idx = wordIndex emptyEntry;
               originalLen = unat (ws ! (idx + 4))
           in if originalLen < blocksNeeded then Finished (Inl ChosenAreaTooSmall, f1)
              else
                (let remaining = (originalLen - blocksNeeded) mod 65536;
                     eosIdx = findEos ws hdr 5;
                     insertIdx = (idx + entryWords hdr) mod 65536;
                     spaceNeededAfterInsert =
                       (insertIdx + entryWords hdr + entryWords hdr) mod 65536
                 in if remaining > 0 \<and> spaceNeededAfterInsert > 512 then
                      (case splitDirectorySegment f1 (segNumber emptyEntry) of
                         (Inl e, f2) \<Rightarrow> Finished (Inl e, f2)
                       | (Inr u, f2) \<Rightarrow> Retry f2)
                    else
                      (let dateW = (if optionalDateWord \<noteq> 0 then optionalDateWord
                                    else sysDate)
                       in case updateSegment ws hdr idx blocksNeeded remaining eosIdx
                                 (encodeFileName rtname) dateW of
                            Inl e \<Rightarrow> Finished (Inl e, f1)
                          | Inr ws' \<Rightarrow>
                             (case writeSegmentWords f1
                                     (segmentBlock firstDirBlock (segNumber emptyEntry)) ws' of
                                (Inl e, f3) \<Rightarrow> Finished (Inl e, f3)
                              | (Inr u, f3) \<Rightarrow> Finished (Inr Copied, f3))))))))))))))"

text \<open>
  \<open>copySingleToRt11\<close> calls itself after a split. The first argument bounds the depth
  of that recursion; \<open>None\<close> is a run that would need a deeper one.
\<close>

fun copySingleToRt11 ::
  "nat \<Rightarrow> disk \<Rightarrow> byte list option \<Rightarrow> string \<Rightarrow> bool \<Rightarrow> word16 \<Rightarrow> word16
     \<Rightarrow> ((error + copied) \<times> disk) option" where
  "copySingleToRt11 0 f src baseName noReplace optionalDateWord sysDate = None"
| "copySingleToRt11 (Suc n) f src baseName noReplace optionalDateWord sysDate =
     (case copyAttempt f src baseName noReplace optionalDateWord sysDate of
        Finished r \<Rightarrow> Some r
      | Retry f' \<Rightarrow> copySingleToRt11 n f' src baseName noReplace optionalDateWord sysDate)"


section \<open>Predicates used in the statements\<close>

text \<open>
  Every entry of a list starts at \<open>ds\<close> plus the lengths of the entries before it,
  reduced to 16 bits.
\<close>

definition startsOk :: "nat \<Rightarrow> Rt11Entry list \<Rightarrow> bool" where
  "startsOk ds es = (\<forall>k < length es.
      startBlock (es ! k) = (ds + sum_list (map lengthBlocks (take k es))) mod 65536)"



text \<open>
  The walk of \<open>readDirectory\<close> seen from outside. \<open>segmentCount\<close> is the clamped
  \<open>totalSegments\<close> of the first header. \<open>linkOf\<close> is the next-link stored in a
  segment, \<open>chainPath\<close> says that a list of segment numbers follows the links from a
  start, \<open>endLink\<close> is the segment number the links lead to after the list, and
  \<open>decodeSegments\<close> decodes the segments of a list in order with the running offset.
  \<open>inVolume\<close> is the condition under which the loop decodes a segment,
  \<open>walkEnds\<close> the condition under which it leaves, and \<open>stopWarning\<close> the warning
  the specification gives for the segment number at which it leaves.
\<close>

definition segmentCount :: "word16 list \<Rightarrow> nat" where
  "segmentCount segWords =
     (if totalSegments (parseSegmentHeader segWords) = 0
         \<or> totalSegments (parseSegmentHeader segWords) > 31
      then 1 else totalSegments (parseSegmentHeader segWords))"

definition linkOf :: "disk \<Rightarrow> nat \<Rightarrow> nat \<Rightarrow> nat" where
  "linkOf f fd s =
     (case readSegmentWords f (segmentBlock fd s) of
        Inl e \<Rightarrow> 0
      | Inr ws \<Rightarrow> nextSegment (parseSegmentHeader ws))"

fun chainPath :: "disk \<Rightarrow> nat \<Rightarrow> nat \<Rightarrow> nat list \<Rightarrow> bool" where
  "chainPath f fd cur [] = True"
| "chainPath f fd cur (s # segs) = (s = cur \<and> chainPath f fd (linkOf f fd s) segs)"

fun endLink :: "disk \<Rightarrow> nat \<Rightarrow> nat \<Rightarrow> nat list \<Rightarrow> nat" where
  "endLink f fd cur [] = cur"
| "endLink f fd cur (s # segs) = endLink f fd (linkOf f fd s) segs"

fun decodeSegments ::
  "disk \<Rightarrow> nat \<Rightarrow> nat \<Rightarrow> nat list \<Rightarrow> nat \<Rightarrow> Rt11Entry list \<Rightarrow> error + (Rt11Entry list \<times> nat)"
where
  "decodeSegments f fd ds [] off entries = Inr (entries, off)"
| "decodeSegments f fd ds (s # segs) off entries =
     (case readSegmentWords f (segmentBlock fd s) of
        Inl e \<Rightarrow> Inl e
      | Inr ws \<Rightarrow>
         (case parseEntries ws s (parseSegmentHeader ws) ds 5 off entries of
            Inl e \<Rightarrow> Inl e
          | Inr (entries', off') \<Rightarrow> decodeSegments f fd ds segs off' entries'))"

definition inVolume :: "nat \<Rightarrow> nat \<Rightarrow> nat \<Rightarrow> nat \<Rightarrow> bool" where
  "inVolume tb fd nsegs s = (1 \<le> s \<and> s \<le> nsegs \<and> segmentBlock fd s + 1 < tb)"

definition stopWarning :: "nat \<Rightarrow> nat \<Rightarrow> nat \<Rightarrow> nat list \<Rightarrow> nat \<Rightarrow> warning option" where
  "stopWarning tb fd nsegs segs cur =
     (if cur = 0 then None
      else if cur > nsegs then Some (InvalidSegmentNumber cur)
      else if cur \<in> set segs then Some (DirectoryLoop cur)
      else if tb \<le> segmentBlock fd cur + 1 then Some (BeyondVolume cur)
      else None)"

definition walkEnds :: "nat \<Rightarrow> nat \<Rightarrow> nat \<Rightarrow> nat list \<Rightarrow> nat \<Rightarrow> bool" where
  "walkEnds tb fd nsegs segs cur =
     (cur = 0 \<or> cur > nsegs \<or> cur \<in> set segs \<or> tb \<le> segmentBlock fd cur + 1)"

text \<open>
  One pass through the inner loop of \<open>readDirectory\<close>: \<open>None\<close> when the loop
  leaves at word index \<open>idx\<close>, otherwise the entry pushed there (or the failure of the
  name decoding). \<open>prefixed\<close> puts entries in front of a result of the loop.
\<close>

definition entryAt ::
  "word16 list \<Rightarrow> nat \<Rightarrow> DirSegmentHeader \<Rightarrow> nat \<Rightarrow> nat \<Rightarrow> nat \<Rightarrow> (error + Rt11Entry) option" where
  "entryAt ws seg hdr ds idx off =
     (if idx + entryWords hdr \<le> 512 \<and> ws ! idx AND E_EOS = 0 \<and> ws ! idx \<noteq> 0 then
        Some (case decodeFileName (ws ! (idx + 1)) (ws ! (idx + 2)) (ws ! (idx + 3)) of
                Inl e \<Rightarrow> Inl e
              | Inr nm \<Rightarrow>
                  Inr \<lparr>name = nm, startBlock = ((ds + off) mod 4294967296) mod 65536,
                       lengthBlocks = unat (ws ! (idx + 4)), status = ws ! idx,
                       dateWord = ws ! (idx + 6),
                       tentative = (ws ! idx AND E_TENT \<noteq> 0),
                       empty' = (ws ! idx AND E_MPTY \<noteq> 0),
                       permanent = (ws ! idx AND E_PERM \<noteq> 0),
                       eos = (ws ! idx AND E_EOS \<noteq> 0),
                       segNumber = seg, wordIndex = idx\<rparr>)
      else None)"

definition prefixed ::
  "Rt11Entry list \<Rightarrow> error + (Rt11Entry list \<times> nat) \<Rightarrow> error + (Rt11Entry list \<times> nat)" where
  "prefixed acc r = (case r of Inl e \<Rightarrow> Inl e | Inr (es, off) \<Rightarrow> Inr (acc @ es, off))"

section \<open>Example images\<close>

text \<open>
  Small images for the concrete statements. Block 0 is unused, block 1 is the home block
  with the first directory block in word 234, and the directory segments follow from
  block 2. A segment is given by its leading words and filled with zero words.
\<close>

definition zeroBlock :: block where
  "zeroBlock = replicate 512 0"

definition homeBlock :: "word16 \<Rightarrow> block" where
  "homeBlock fd = wordsBlock ((replicate 256 0)[234 := fd]) 0"

definition segmentOf :: "word16 list \<Rightarrow> word16 list" where
  "segmentOf ws = ws @ replicate (512 - length ws) 0"

text \<open>
  One segment, data area at block 60000: the file \<open>A\<close> of 10000 blocks, then an empty
  area of 100 blocks, then the sentinel.
\<close>

definition wrapSegment :: "word16 list" where
  "wrapSegment = segmentOf [1, 0, 1, 0, 60000,
                            0x400, 1600, 0, 0, 10000, 0, 0,
                            0x200, 0, 0, 0, 100, 0, 0,
                            0x800]"

definition wrapImage :: disk where
  "wrapImage = \<lparr>blocks = [zeroBlock, homeBlock 2, wordsBlock wrapSegment 0,
                           wordsBlock wrapSegment 256, zeroBlock], written = []\<rparr>"

text \<open>One segment whose next-link is its own number 1, holding the file \<open>A\<close>.\<close>

definition loopSegment :: "word16 list" where
  "loopSegment = segmentOf [1, 1, 1, 0, 6,
                            0x400, 1600, 0, 0, 3, 0, 0,
                            0x800]"

definition loopImage :: disk where
  "loopImage = \<lparr>blocks = [zeroBlock, homeBlock 2, wordsBlock loopSegment 0,
                           wordsBlock loopSegment 256, zeroBlock], written = []\<rparr>"

text \<open>
  A volume of three blocks: the first directory block is 2, so the second block of
  segment 1 is not in the volume.
\<close>

definition cutImage :: disk where
  "cutImage = \<lparr>blocks = [zeroBlock, homeBlock 2, wordsBlock loopSegment 0], written = []\<rparr>"



text \<open>
  Two segments in the volume, \<open>highestInUse = 1\<close>, one in the chain: the files \<open>A\<close>
  and \<open>B\<close> of one block each, then an empty area of 2 blocks.
\<close>

definition splitSegment :: "word16 list" where
  "splitSegment = segmentOf [2, 0, 1, 0, 6,
                             0x400, 1600, 0, 0, 1, 0, 0,
                             0x400, 3200, 0, 0, 1, 0, 0,
                             0x200, 0, 0, 0, 2, 0, 0,
                             0x800]"

definition splitImage :: disk where
  "splitImage = \<lparr>blocks = [zeroBlock, homeBlock 2,
                            wordsBlock splitSegment 0, wordsBlock splitSegment 256,
                            zeroBlock, zeroBlock], written = []\<rparr>"

text \<open>
  The image after both blocks of a segment have been written: what \<open>writeSegmentWords\<close>
  leaves when the two blocks are inside the file.
\<close>

definition putSegment :: "disk \<Rightarrow> nat \<Rightarrow> word16 list \<Rightarrow> disk" where
  "putSegment f b ws =
     f\<lparr>blocks := (blocks f)[b := wordsBlock ws 0, b + 1 := wordsBlock ws 256],
       written := written f @ [b, b + 1]\<rparr>"


section \<open>Properties of the RAD50 codec\<close>

lemma RAD50_TABLE_entries:
  "list_all (\<lambda>c. rad50Index c < 40 \<and> RAD50_TABLE ! rad50Index c = c) RAD50_TABLE"
  by code_simp

lemma rad50Index_inverse:
  "c \<in> set RAD50_TABLE \<Longrightarrow> rad50Index c < 40 \<and> RAD50_TABLE ! rad50Index c = c"
  using RAD50_TABLE_entries by (simp add: list_all_iff)

lemma unat_word16_of_nat: "n < 65536 \<Longrightarrow> unat (of_nat n :: word16) = n"
  by (simp add: unat_of_nat take_bit_eq_mod)

lemma div_mod_digit:
  fixes q r b :: nat
  assumes "r < b"
  shows "(q * b + r) div b = q" and "(q * b + r) mod b = r"
  using assms by simp_all

lemma rad50_digits:
  assumes a: "i1 < 40" "i2 < 40" "i3 < (40::nat)"
  shows "(i1 * 1600 + i2 * 40 + i3) div 1600 = i1"
    and "(i1 * 1600 + i2 * 40 + i3) mod 1600 = i2 * 40 + i3"
    and "(i2 * 40 + i3) div 40 = i2"
    and "(i2 * 40 + i3) mod 40 = i3"
proof -
  have r: "i2 * 40 + i3 < 1600" using a by linarith
  show "(i1 * 1600 + i2 * 40 + i3) div 1600 = i1"
    using div_mod_digit(1)[OF r, of i1] by (simp only: add.assoc)
  show "(i1 * 1600 + i2 * 40 + i3) mod 1600 = i2 * 40 + i3"
    using div_mod_digit(2)[OF r, of i1] by (simp only: add.assoc)
  show "(i2 * 40 + i3) div 40 = i2" by (rule div_mod_digit(1)[OF a(3)])
  show "(i2 * 40 + i3) mod 40 = i3" by (rule div_mod_digit(2)[OF a(3)])
qed

lemma rad50Indices_of_digits:
  assumes a: "i1 < 40" "i2 < 40" "i3 < 40"
  shows "rad50Indices (of_nat (i1 * 1600 + i2 * 40 + i3)) = (i1, i2, i3)"
proof -
  from a have "i1 * 1600 + i2 * 40 + i3 < 65536" by linarith
  then have u: "unat (of_nat (i1 * 1600 + i2 * 40 + i3) :: word16) = i1 * 1600 + i2 * 40 + i3"
    by (rule unat_word16_of_nat)
  show ?thesis
    unfolding rad50Indices_def Let_def u rad50_digits[OF a] ..
qed

lemma length_three: "length s = 3 \<Longrightarrow> \<exists>a b c. s = [a, b, c]"
  by (auto simp: length_Suc_conv eval_nat_numeral)

text \<open>
  The second and third subscript of \<open>decodeRad50\<close> are below 40 for every word; the
  first one is below 40 exactly for the words below 64000.
\<close>

lemma rad50Indices_bounds:
  "(case rad50Indices w of (i1, i2, i3) \<Rightarrow>
      (i1 < 40) = (unat w < 64000) \<and> i2 < 40 \<and> i3 < 40)"
  by (auto simp: rad50Indices_def Let_def)

text \<open>
  Claim C9, as the code has it. For a three-character string over the 40-symbol alphabet,
  decoding the encoded word gives the string with its spaces removed, because
  \<open>decodeRad50\<close> appends a character only when it is not a space; it gives the string
  itself when the string has no space.
\<close>

theorem decodeRad50_encodeRad50:
  assumes "length s = 3" and "set s \<subseteq> set RAD50_TABLE"
  shows "decodeRad50 (encodeRad50 s) = Inr (filter (\<lambda>c. c \<noteq> CHR '' '') s)
       \<and> (CHR '' '' \<notin> set s \<longrightarrow> decodeRad50 (encodeRad50 s) = Inr s)"
proof -
  from assms(1) obtain a b c where s: "s = [a, b, c]"
    using length_three by blast
  from assms(2) s have ta: "rad50Index a < 40" "RAD50_TABLE ! rad50Index a = a"
    and tb: "rad50Index b < 40" "RAD50_TABLE ! rad50Index b = b"
    and tc: "rad50Index c < 40" "RAD50_TABLE ! rad50Index c = c"
    using rad50Index_inverse by simp_all
  have e: "encodeRad50 s = of_nat (rad50Index a * 1600 + rad50Index b * 40 + rad50Index c)"
    unfolding encodeRad50_def Let_def s by simp
  have d: "decodeRad50 (encodeRad50 s) = Inr (filter (\<lambda>c. c \<noteq> CHR '' '') s)"
    unfolding decodeRad50_def e rad50Indices_of_digits[OF ta(1) tb(1) tc(1)]
    by (simp add: tableAt_def ta tb tc s)
  have "CHR '' '' \<notin> set s \<Longrightarrow> filter (\<lambda>c. c \<noteq> CHR '' '') s = s"
    by (auto simp: s)
  with d show ?thesis by simp
qed

theorem decodeRad50_encodeRad50_witness:
  "decodeRad50 (encodeRad50 ''RT1'') = Inr ''RT1''"
  using decodeRad50_encodeRad50 [of "''RT1''"] by (simp add: RAD50_TABLE_def)

text \<open>
  Claim C9 as the specification states it fails: \<open>''A B''\<close> is a three-character string
  over the alphabet, and decoding its code gives the two characters \<open>''AB''\<close>.
\<close>

theorem decodeRad50_encodeRad50_counterexample:
  "length ''A B'' = 3 \<and> set ''A B'' \<subseteq> set RAD50_TABLE
   \<and> decodeRad50 (encodeRad50 ''A B'') = Inr ''AB''
   \<and> decodeRad50 (encodeRad50 ''A B'') \<noteq> Inr ''A B''"
  by code_simp

text \<open>
  Claim C10 says that the three subscripts are below 40 for every 16-bit word. At the word
  64000 the first subscript is 40: \<open>decodeRad50\<close> reads one element past the end of
  the 40-element table.
\<close>

theorem decodeRad50_index_out_of_bounds:
  "rad50Indices 64000 = (40, 0, 0) \<and> decodeRad50 64000 = Inl (TableIndexOutOfBounds 40)"
  by (simp add: decodeRad50_def rad50Indices_def tableAt_def)

section \<open>Properties of the date codec\<close>

text \<open>
  Claim C7 says that decoding \<open>encodeRt11Date year month day\<close> gives back the day. For
  15 January 1999 the encoded word is not 0 and decodes to year 1999 and month 1, but to
  day 1, and \<open>formatRt11Date\<close> prints that day; \<open>encodeRt11DateFromSystem\<close>, which
  builds the field with the bitwise conjunction, keeps the day 15.
\<close>

theorem encodeRt11Date_loses_day:
  "encodeRt11Date 1999 1 15 \<noteq> 0
   \<and> dateYear (encodeRt11Date 1999 1 15) = 1999
   \<and> dateMonth (encodeRt11Date 1999 1 15) = 1
   \<and> dateDay (encodeRt11Date 1999 1 15) = 1
   \<and> formatRt11Date (encodeRt11Date 1999 1 15) = ''01-Jan-99''
   \<and> dateDay (encodeRt11DateFromSystem 1999 1 15) = 15
   \<and> formatRt11Date (encodeRt11DateFromSystem 1999 1 15) = ''15-Jan-99''"
  by code_simp

text \<open>The two failures that claim C7 names do happen: year 2100 and day 0 give 0.\<close>

lemma encodeRt11Date_rejects:
  "encodeRt11Date 2100 month day = 0 \<and> encodeRt11Date year month 0 = 0"
  by (simp add: encodeRt11Date_def)


section \<open>Blocks and words\<close>

lemma word_255_mask: "(255 :: 'a::len word) = mask 8"
  by (simp add: mask_eq_exp_minus_1)

lemma leWord_bytes:
  "leWord (ucast (w AND 0x00FF)) (ucast (drop_bit 8 w AND 0x00FF)) = (w :: word16)"
  unfolding leWord_def word_255_mask
  by (rule bit_word_eqI) (auto simp: bit_simps)

lemma wordsBlock_nth:
  "j < 512 \<Longrightarrow> wordsBlock ws off ! j =
     (if even j then ucast (ws ! (off + j div 2) AND 0x00FF)
      else ucast (drop_bit 8 (ws ! (off + j div 2)) AND 0x00FF))"
  unfolding wordsBlock_def by (simp del: upt_Suc)

lemma length_wordsBlock [simp]: "length (wordsBlock ws off) = 512"
  by (simp add: wordsBlock_def)

lemma blockWords_wordsBlock:
  assumes "off + 256 \<le> length ws"
  shows "blockWords (wordsBlock ws off) = take 256 (drop off ws)"
proof (rule nth_equalityI)
  show "length (blockWords (wordsBlock ws off)) = length (take 256 (drop off ws))"
    using assms by (simp add: blockWords_def)
next
  fix i assume "i < length (blockWords (wordsBlock ws off))"
  then have i: "i < 256" by (simp add: blockWords_def)
  then have "blockWords (wordsBlock ws off) ! i
      = leWord (wordsBlock ws off ! (2 * i)) (wordsBlock ws off ! (2 * i + 1))"
    by (simp add: blockWords_def del: upt_Suc)
  also have "\<dots> = ws ! (off + i)"
    using i by (simp add: wordsBlock_nth leWord_bytes)
  also have "\<dots> = take 256 (drop off ws) ! i"
    using i assms by simp
  finally show "blockWords (wordsBlock ws off) ! i = take 256 (drop off ws) ! i" .
qed

lemma segment_roundtrip:
  assumes "length ws = 512"
  shows "blockWords (wordsBlock ws 0) @ blockWords (wordsBlock ws 256) = ws"
proof -
  have "take 256 ws @ take 256 (drop 256 ws) = take (256 + 256) ws"
    by (simp only: take_add)
  also have "\<dots> = ws" using assms by simp
  finally show ?thesis using assms by (simp add: blockWords_wordsBlock)
qed


lemma walkChain_stops:
  assumes "cur \<noteq> 0"
    and "cur > nsegs \<or> cur \<in> visited \<or> totalBlocks \<le> segmentBlock fd cur + 1"
  shows "walkChain f totalBlocks fd nsegs ds cur visited off entries =
           Inr (entries, Some (if cur > nsegs then InvalidSegmentNumber cur
                               else if cur \<in> visited then DirectoryLoop cur
                               else BeyondVolume cur))"
  using assms by (subst walkChain.simps) auto

lemma walkChain_step:
  assumes "cur \<noteq> 0" "cur \<le> nsegs" "cur \<notin> visited" "segmentBlock fd cur + 1 < totalBlocks"
    and "readSegmentWords f (segmentBlock fd cur) = Inr ws"
    and "parseEntries ws cur (parseSegmentHeader ws) ds 5 off entries = Inr (entries', off')"
  shows "walkChain f totalBlocks fd nsegs ds cur visited off entries =
         walkChain f totalBlocks fd nsegs ds (nextSegment (parseSegmentHeader ws))
            (insert cur visited) off' entries'"
  using assms by (subst walkChain.simps) auto


lemma startsOk_snoc:
  assumes "startsOk ds es" and "startBlock e = (ds + sum_list (map lengthBlocks es)) mod 65536"
  shows "startsOk ds (es @ [e])"
  unfolding startsOk_def
proof (intro allI impI)
  fix k assume "k < length (es @ [e])"
  then consider "k < length es" | "k = length es" by fastforce
  then show "startBlock ((es @ [e]) ! k)
      = (ds + sum_list (map lengthBlocks (take k (es @ [e])))) mod 65536"
  proof cases
    case 1
    then show ?thesis using assms(1) by (simp add: startsOk_def nth_append)
  next
    case 2
    then show ?thesis using assms(2) by simp
  qed
qed

lemma mod_chain: "(x mod 4294967296) mod 65536 = x mod (65536::nat)"
  by (rule mod_mod_cancel) simp

lemma offset_cong:
  assumes "off mod 65536 = s mod (65536::nat)"
  shows "((ds + off) mod 4294967296) mod 65536 = (ds + s) mod 65536"
    and "((off + len) mod 4294967296) mod 65536 = (s + len) mod 65536"
proof -
  show "((ds + off) mod 4294967296) mod 65536 = (ds + s) mod 65536"
    unfolding mod_chain using assms by (metis mod_add_right_eq)
  show "((off + len) mod 4294967296) mod 65536 = (s + len) mod 65536"
    unfolding mod_chain using assms by (metis mod_add_left_eq)
qed

lemma parseEntries_starts:
  assumes "parseEntries ws seg hdr ds idx off acc = Inr (res, off')"
    and "startsOk ds acc"
    and "off mod 65536 = sum_list (map lengthBlocks acc) mod 65536"
  shows "startsOk ds res \<and> off' mod 65536 = sum_list (map lengthBlocks res) mod 65536"
  using assms
proof (induction ws seg hdr ds idx off acc rule: parseEntries.induct)
  case (1 ws seg hdr ds idx off acc)
  show ?case
  proof (cases "idx + entryWords hdr \<le> 512 \<and> ws ! idx AND E_EOS = 0 \<and> ws ! idx \<noteq> 0")
    case False
    then have "parseEntries ws seg hdr ds idx off acc = Inr (acc, off)"
      by (subst parseEntries.simps) (auto simp: Let_def)
    with "1.prems" show ?thesis by simp
  next
    case True
    from True "1.prems"(1) obtain nm where nm:
      "decodeFileName (ws ! (idx + 1)) (ws ! (idx + 2)) (ws ! (idx + 3)) = Inr nm"
      by (subst (asm) parseEntries.simps) (auto simp: Let_def split: sum.splits)
    define len where "len = unat (ws ! (idx + 4))"
    define e where "e = \<lparr>name = nm, startBlock = ((ds + off) mod 4294967296) mod 65536,
        lengthBlocks = len, status = ws ! idx, dateWord = ws ! (idx + 6),
        tentative = (ws ! idx AND E_TENT \<noteq> 0), empty' = (ws ! idx AND E_MPTY \<noteq> 0),
        permanent = (ws ! idx AND E_PERM \<noteq> 0), eos = (ws ! idx AND E_EOS \<noteq> 0),
        segNumber = seg, wordIndex = idx\<rparr>"
    have rec: "parseEntries ws seg hdr ds idx off acc =
        parseEntries ws seg hdr ds ((idx + entryWords hdr) mod 65536)
          ((off + len) mod 4294967296) (acc @ [e])"
      using True nm by (subst parseEntries.simps) (simp add: Let_def e_def len_def)
    have s1: "startsOk ds (acc @ [e])"
      by (rule startsOk_snoc[OF "1.prems"(2)])
         (simp add: e_def offset_cong(1)[OF "1.prems"(3)])
    have s2: "((off + len) mod 4294967296) mod 65536
        = sum_list (map lengthBlocks (acc @ [e])) mod 65536"
      by (simp add: offset_cong(2)[OF "1.prems"(3)] e_def)
    from "1.prems"(1) rec have r:
      "parseEntries ws seg hdr ds ((idx + entryWords hdr) mod 65536)
          ((off + len) mod 4294967296) (acc @ [e]) = Inr (res, off')" by simp
    show ?thesis
    proof (rule "1.IH"[where x="ws ! idx" and b=nm and xa=len and xb="ws ! (idx + 6)"
            and xc="(ds + off) mod 4294967296" and xd=e])
    qed (use True nm r s1 s2 in \<open>simp_all add: e_def len_def\<close>)
  qed
qed

lemma walkChain_starts:
  assumes "walkChain f tb fd nsegs ds cur visited off acc = Inr (res, w)"
    and "startsOk ds acc"
    and "off mod 65536 = sum_list (map lengthBlocks acc) mod 65536"
  shows "startsOk ds res"
  using assms
proof (induction f tb fd nsegs ds cur visited off acc rule: walkChain.induct)
  case (1 f tb fd nsegs ds cur visited off acc)
  show ?case
  proof (cases "cur \<noteq> 0 \<and> cur \<le> nsegs \<and> cur \<notin> visited \<and> segmentBlock fd cur + 1 < tb")
    case False
    then have "\<exists>w'. walkChain f tb fd nsegs ds cur visited off acc = Inr (acc, w')"
      by (subst walkChain.simps) auto
    with "1.prems" show ?thesis by auto
  next
    case True
    from True "1.prems"(1) obtain ws where ws:
      "readSegmentWords f (segmentBlock fd cur) = Inr ws"
      by (subst (asm) walkChain.simps) (auto split: sum.splits)
    from True "1.prems"(1) ws obtain es' off' where p:
      "parseEntries ws cur (parseSegmentHeader ws) ds 5 off acc = Inr (es', off')"
      by (subst (asm) walkChain.simps) (auto split: sum.splits)
    from parseEntries_starts[OF p "1.prems"(2,3)]
    have inv: "startsOk ds es'" "off' mod 65536 = sum_list (map lengthBlocks es') mod 65536"
      by simp_all
    have step: "walkChain f tb fd nsegs ds cur visited off acc =
         walkChain f tb fd nsegs ds (nextSegment (parseSegmentHeader ws))
            (insert cur visited) off' es'"
      using True ws p by (intro walkChain_step) auto
    show ?thesis
    proof (rule "1.IH"[where ba="(es', off')" and x=es' and y=off' and b=ws])
    qed (use True ws p inv step "1.prems"(1) in simp_all)
  qed
qed


section \<open>Evaluating the example images\<close>

lemma length_segmentOf: "length ws \<le> 512 \<Longrightarrow> length (segmentOf ws) = 512"
  by (simp add: segmentOf_def)

lemma getFirstDirectoryBlock_home:
  assumes "1 < length (blocks f)" and "blocks f ! 1 = homeBlock fd" and "fd \<noteq> 0"
  shows "getFirstDirectoryBlock f = Inr (unat fd)"
  using assms
  by (simp add: getFirstDirectoryBlock_def readBlock_def homeBlock_def blockWords_wordsBlock)

lemma readSegmentWords_blocks:
  assumes "b + 1 < length (blocks f)" and "blocks f ! b = wordsBlock ws 0"
    and "blocks f ! (b + 1) = wordsBlock ws 256" and "length ws = 512"
  shows "readSegmentWords f b = Inr ws"
  using assms by (simp add: readSegmentWords_def readBlock_def segment_roundtrip)

lemma decodeFileName_examples:
  "decodeFileName 0 0 0 = Inr ''''" "decodeFileName 1600 0 0 = Inr ''A''"
  "decodeFileName 3200 0 0 = Inr ''B''"
  by code_simp+

lemma walkChain_end: "walkChain f tb fd nsegs ds 0 visited off entries = Inr (entries, None)"
  by (subst walkChain.simps) simp

lemmas eval_entries =
  parseEntries.simps parseSegmentHeader_def entryWords_def segmentOf_def nth_append Let_def
  decodeFileName_examples E_EOS_def E_TENT_def E_MPTY_def E_PERM_def

lemma wrap_first: "getFirstDirectoryBlock wrapImage = Inr 2"
  using getFirstDirectoryBlock_home[of wrapImage 2] by (simp add: wrapImage_def)

lemma wrap_read: "readSegmentWords wrapImage (segmentBlock 2 1) = Inr wrapSegment"
  by (rule readSegmentWords_blocks)
     (simp_all add: wrapImage_def wrapSegment_def length_segmentOf segmentBlock_def)

lemma wrap_header:
  "parseSegmentHeader wrapSegment =
     \<lparr>totalSegments = 1, nextSegment = 0, highestInUse = 1, extraBytes = 0,
      dataStartBlock = 60000\<rparr>"
  by (simp add: parseSegmentHeader_def wrapSegment_def segmentOf_def)

lemma wrap_parse:
  "parseEntries wrapSegment 1 (parseSegmentHeader wrapSegment) 60000 5 0 [] =
     Inr ([\<lparr>name = ''A'', startBlock = 60000, lengthBlocks = 10000, status = 0x400,
             dateWord = 0, tentative = False, empty' = False, permanent = True, eos = False,
             segNumber = 1, wordIndex = 5\<rparr>,
           \<lparr>name = '''', startBlock = 4464, lengthBlocks = 100, status = 0x200,
             dateWord = 0, tentative = False, empty' = True, permanent = False, eos = False,
             segNumber = 1, wordIndex = 12\<rparr>], 10100)"
  by (simp add: eval_entries wrapSegment_def)

lemma wrap_directory:
  "readDirectory wrapImage 5 =
     Inr ([\<lparr>name = ''A'', startBlock = 60000, lengthBlocks = 10000, status = 0x400,
             dateWord = 0, tentative = False, empty' = False, permanent = True, eos = False,
             segNumber = 1, wordIndex = 5\<rparr>,
           \<lparr>name = '''', startBlock = 4464, lengthBlocks = 100, status = 0x200,
             dateWord = 0, tentative = False, empty' = True, permanent = False, eos = False,
             segNumber = 1, wordIndex = 12\<rparr>], None)"
proof -
  have r: "readSegmentWords wrapImage 2 = Inr wrapSegment"
    using wrap_read by (simp add: segmentBlock_def)
  have "readDirectory wrapImage 5 = walkChain wrapImage 5 2 1 60000 1 {} 0 []"
    unfolding readDirectory_def wrap_first
    by (simp add: r Let_def wrap_header del: One_nat_def)
  also have "\<dots> = walkChain wrapImage 5 2 1 60000 (nextSegment (parseSegmentHeader wrapSegment))
      (insert 1 {}) 10100
        [\<lparr>name = ''A'', startBlock = 60000, lengthBlocks = 10000, status = 0x400,
             dateWord = 0, tentative = False, empty' = False, permanent = True, eos = False,
             segNumber = 1, wordIndex = 5\<rparr>,
           \<lparr>name = '''', startBlock = 4464, lengthBlocks = 100, status = 0x200,
             dateWord = 0, tentative = False, empty' = True, permanent = False, eos = False,
             segNumber = 1, wordIndex = 12\<rparr>]"
    by (rule walkChain_step[OF _ _ _ _ wrap_read wrap_parse])
       (simp_all add: segmentBlock_def DIR_SEGMENT_BLOCKS_def)
  also have "\<dots> = Inr ([\<lparr>name = ''A'', startBlock = 60000, lengthBlocks = 10000, status = 0x400,
             dateWord = 0, tentative = False, empty' = False, permanent = True, eos = False,
             segNumber = 1, wordIndex = 5\<rparr>,
           \<lparr>name = '''', startBlock = 4464, lengthBlocks = 100, status = 0x200,
             dateWord = 0, tentative = False, empty' = True, permanent = False, eos = False,
             segNumber = 1, wordIndex = 12\<rparr>], None)"
    by (simp add: wrap_header walkChain_end)
  finally show ?thesis .
qed

lemma loop_read: "readSegmentWords loopImage (segmentBlock 2 1) = Inr loopSegment"
  by (rule readSegmentWords_blocks)
     (simp_all add: loopImage_def loopSegment_def length_segmentOf segmentBlock_def)

lemma loop_parse:
  "parseEntries loopSegment 1 (parseSegmentHeader loopSegment) 6 5 0 [] =
     Inr ([\<lparr>name = ''A'', startBlock = 6, lengthBlocks = 3, status = 0x400,
             dateWord = 0, tentative = False, empty' = False, permanent = True, eos = False,
             segNumber = 1, wordIndex = 5\<rparr>], 3)"
  by (simp add: eval_entries loopSegment_def)

section \<open>The chain walk of readDirectory\<close>

lemma segmentCount_range: "1 \<le> segmentCount ws \<and> segmentCount ws \<le> 31"
  by (simp add: segmentCount_def)

lemma readDirectory_walk:
  assumes "getFirstDirectoryBlock f = Inr fd" and "fd < tb" and "readSegmentWords f fd = Inr ws1"
  shows "readDirectory f tb =
           walkChain f tb fd (segmentCount ws1) (dataStartBlock (parseSegmentHeader ws1)) 1 {} 0 []"
  using assms by (simp add: readDirectory_def segmentCount_def Let_def)

text \<open>The walk from a state, along a given list of segments.\<close>

lemma walkChain_along:
  assumes "chainPath f fd cur segs" and "distinct segs" and "set segs \<inter> visited = {}"
    and "\<forall>s \<in> set segs. inVolume tb fd nsegs s"
    and "decodeSegments f fd ds segs off entries = Inr (es, off')"
  shows "walkChain f tb fd nsegs ds cur visited off entries =
         walkChain f tb fd nsegs ds (endLink f fd cur segs) (visited \<union> set segs) off' es"
  using assms
proof (induction segs arbitrary: cur visited off entries)
  case Nil
  then show ?case by simp
next
  case (Cons s segs)
  from Cons.prems(1) have s: "s = cur" and p: "chainPath f fd (linkOf f fd cur) segs" by auto
  from Cons.prems(4) s have v: "inVolume tb fd nsegs cur" by simp
  from Cons.prems(3) s have nv: "cur \<notin> visited" by auto
  from Cons.prems(5) s obtain ws entries1 off1 where
      r: "readSegmentWords f (segmentBlock fd cur) = Inr ws"
    and pe: "parseEntries ws cur (parseSegmentHeader ws) ds 5 off entries = Inr (entries1, off1)"
    and d: "decodeSegments f fd ds segs off1 entries1 = Inr (es, off')"
    by (auto split: sum.splits)
  have l: "linkOf f fd cur = nextSegment (parseSegmentHeader ws)" by (simp add: linkOf_def r)
  have "walkChain f tb fd nsegs ds cur visited off entries =
        walkChain f tb fd nsegs ds (nextSegment (parseSegmentHeader ws))
          (insert cur visited) off1 entries1"
    using v nv by (intro walkChain_step[OF _ _ _ _ r pe]) (auto simp: inVolume_def)
  also have "\<dots> = walkChain f tb fd nsegs ds (endLink f fd (linkOf f fd cur) segs)
                    (insert cur visited \<union> set segs) off' es"
    unfolding l[symmetric]
  proof (rule Cons.IH[OF p _ _ _ d])
    show "distinct segs" using Cons.prems(2) by simp
    show "set segs \<inter> insert cur visited = {}" using Cons.prems(2,3) s by auto
    show "\<forall>s\<in>set segs. inVolume tb fd nsegs s" using Cons.prems(4) by simp
  qed
  finally show ?case using s by simp
qed

lemma walkChain_ends:
  assumes "walkEnds tb fd nsegs segs cur"
  shows "walkChain f tb fd nsegs ds cur (set segs) off entries =
           Inr (entries, stopWarning tb fd nsegs segs cur)"
proof (cases "cur = 0")
  case True
  then show ?thesis by (simp add: walkChain_end stopWarning_def)
next
  case False
  with assms have b: "cur > nsegs \<or> cur \<in> set segs \<or> tb \<le> segmentBlock fd cur + 1"
    by (simp add: walkEnds_def)
  show ?thesis
    using walkChain_stops[OF False b, of f ds off entries] False b
    by (auto simp: stopWarning_def)
qed

text \<open>Every walk has such a list of segments.\<close>

lemma walkChain_path:
  "\<exists>segs. chainPath f fd cur segs \<and> distinct segs \<and> set segs \<inter> visited = {}
      \<and> (\<forall>s \<in> set segs. inVolume tb fd nsegs s)
      \<and> (case decodeSegments f fd ds segs off entries of
            Inl e \<Rightarrow> walkChain f tb fd nsegs ds cur visited off entries = Inl e
          | Inr (es, off') \<Rightarrow>
              (endLink f fd cur segs = 0 \<or> endLink f fd cur segs > nsegs
                 \<or> endLink f fd cur segs \<in> visited \<union> set segs
                 \<or> tb \<le> segmentBlock fd (endLink f fd cur segs) + 1))"
proof (induction f tb fd nsegs ds cur visited off entries rule: walkChain.induct)
  case (1 f tb fd nsegs ds cur visited off entries)
  show ?case
  proof (cases "cur = 0 \<or> cur > nsegs \<or> cur \<in> visited \<or> tb \<le> segmentBlock fd cur + 1")
    case True
    then have "chainPath f fd cur [] \<and> distinct [] \<and> set [] \<inter> visited = {}
      \<and> (\<forall>s \<in> set []. inVolume tb fd nsegs s)
      \<and> (case decodeSegments f fd ds [] off entries of
            Inl e \<Rightarrow> walkChain f tb fd nsegs ds cur visited off entries = Inl e
          | Inr (es, off') \<Rightarrow>
              (endLink f fd cur [] = 0 \<or> endLink f fd cur [] > nsegs
                 \<or> endLink f fd cur [] \<in> visited \<union> set []
                 \<or> tb \<le> segmentBlock fd (endLink f fd cur []) + 1))"
      by auto
    then show ?thesis by blast
  next
    case False
    then have c: "cur \<noteq> 0" "cur \<le> nsegs" "cur \<notin> visited" "segmentBlock fd cur + 1 < tb"
      by auto
    have v: "inVolume tb fd nsegs cur" using c by (simp add: inVolume_def)
    show ?thesis
    proof (cases "readSegmentWords f (segmentBlock fd cur)")
      case (Inl e)
      have w: "walkChain f tb fd nsegs ds cur visited off entries = Inl e"
        using c Inl by (subst walkChain.simps) auto
      have "chainPath f fd cur [cur] \<and> distinct [cur] \<and> set [cur] \<inter> visited = {}
        \<and> (\<forall>s \<in> set [cur]. inVolume tb fd nsegs s)
        \<and> (case decodeSegments f fd ds [cur] off entries of
              Inl e \<Rightarrow> walkChain f tb fd nsegs ds cur visited off entries = Inl e
            | Inr (es, off') \<Rightarrow>
                (endLink f fd cur [cur] = 0 \<or> endLink f fd cur [cur] > nsegs
                   \<or> endLink f fd cur [cur] \<in> visited \<union> set [cur]
                   \<or> tb \<le> segmentBlock fd (endLink f fd cur [cur]) + 1))"
        using c v w Inl by simp
      then show ?thesis by blast
    next
      case (Inr ws)
      show ?thesis
      proof (cases "parseEntries ws cur (parseSegmentHeader ws) ds 5 off entries")
        case (Inl e)
        have w: "walkChain f tb fd nsegs ds cur visited off entries = Inl e"
          using c Inr Inl by (subst walkChain.simps) auto
        have "chainPath f fd cur [cur] \<and> distinct [cur] \<and> set [cur] \<inter> visited = {}
          \<and> (\<forall>s \<in> set [cur]. inVolume tb fd nsegs s)
          \<and> (case decodeSegments f fd ds [cur] off entries of
                Inl e \<Rightarrow> walkChain f tb fd nsegs ds cur visited off entries = Inl e
              | Inr (es, off') \<Rightarrow>
                  (endLink f fd cur [cur] = 0 \<or> endLink f fd cur [cur] > nsegs
                     \<or> endLink f fd cur [cur] \<in> visited \<union> set [cur]
                     \<or> tb \<le> segmentBlock fd (endLink f fd cur [cur]) + 1))"
          using c v w Inr Inl by simp
        then show ?thesis by blast
      next
        case pe: (Inr p)
        obtain entries1 off1 where p: "p = (entries1, off1)" by (cases p)
        let ?n = "nextSegment (parseSegmentHeader ws)"
        have l: "linkOf f fd cur = ?n" by (simp add: linkOf_def Inr)
        have st: "walkChain f tb fd nsegs ds cur visited off entries =
                  walkChain f tb fd nsegs ds ?n (insert cur visited) off1 entries1"
          using c by (intro walkChain_step[OF _ _ _ _ Inr]) (simp_all add: pe p)
        from "1.IH"[where x=entries1 and y=off1 and b=ws and ba="(entries1, off1)"] c Inr pe p
        obtain segs where
          s: "chainPath f fd ?n segs" "distinct segs" "set segs \<inter> insert cur visited = {}"
             "\<forall>s \<in> set segs. inVolume tb fd nsegs s"
          and r: "case decodeSegments f fd ds segs off1 entries1 of
              Inl e \<Rightarrow> walkChain f tb fd nsegs ds ?n (insert cur visited) off1 entries1 = Inl e
            | Inr (es, off') \<Rightarrow>
                (endLink f fd ?n segs = 0 \<or> endLink f fd ?n segs > nsegs
                   \<or> endLink f fd ?n segs \<in> insert cur visited \<union> set segs
                   \<or> tb \<le> segmentBlock fd (endLink f fd ?n segs) + 1)"
          by auto
        have d: "decodeSegments f fd ds (cur # segs) off entries =
                 decodeSegments f fd ds segs off1 entries1"
          by (simp add: Inr pe p)
        have "chainPath f fd cur (cur # segs) \<and> distinct (cur # segs)
          \<and> set (cur # segs) \<inter> visited = {}
          \<and> (\<forall>s \<in> set (cur # segs). inVolume tb fd nsegs s)
          \<and> (case decodeSegments f fd ds (cur # segs) off entries of
                Inl e \<Rightarrow> walkChain f tb fd nsegs ds cur visited off entries = Inl e
              | Inr (es, off') \<Rightarrow>
                  (endLink f fd cur (cur # segs) = 0 \<or> endLink f fd cur (cur # segs) > nsegs
                     \<or> endLink f fd cur (cur # segs) \<in> visited \<union> set (cur # segs)
                     \<or> tb \<le> segmentBlock fd (endLink f fd cur (cur # segs)) + 1))"
          unfolding d st using s r c v l by (auto split: sum.splits)
        then show ?thesis by blast
      qed
    qed
  qed
qed

lemma distinct_bound:
  assumes "distinct segs" and "\<forall>s \<in> set segs. inVolume tb fd nsegs s"
  shows "length segs \<le> nsegs"
proof -
  have "set segs \<subseteq> {1..nsegs}" using assms(2) by (auto simp: inVolume_def)
  then have "card (set segs) \<le> card {1..nsegs}" by (intro card_mono) simp_all
  with assms(1) show ?thesis by (simp add: distinct_card)
qed

text \<open>
  Claim C4, amended. \<open>walkChain\<close> is a total function: its termination proof measures
  the segment numbers of \<open>1..totalSegments\<close> not yet visited. Let the home block be
  readable, the first directory block lie below \<open>totalBlocks\<close>, and both blocks of the
  first segment be readable. Then, first, for every list of distinct segments that follows
  the links from segment 1, lies in range and inside the volume and has been decoded to the
  entries \<open>es\<close>: if the next segment number is 0, out of range, already visited or
  beyond the volume, \<open>readDirectory\<close> returns exactly \<open>es\<close>, with the warning for
  that number (none for 0); a link back to a visited segment gives \<open>DirectoryLoop\<close>.
  Second, there always is such a list, of at most 31 segments, at whose end
  \<open>readDirectory\<close> returns in that way, or on which a block read or a name decoding
  fails, which is then the result of \<open>readDirectory\<close>.
\<close>

theorem readDirectory_walk_stops:
  assumes "getFirstDirectoryBlock f = Inr fd" and "fd < tb" and "readSegmentWords f fd = Inr ws1"
  shows "(\<forall>segs es off.
            chainPath f fd 1 segs \<and> distinct segs
            \<and> (\<forall>s \<in> set segs. inVolume tb fd (segmentCount ws1) s)
            \<and> decodeSegments f fd (dataStartBlock (parseSegmentHeader ws1)) segs 0 [] = Inr (es, off)
            \<and> walkEnds tb fd (segmentCount ws1) segs (endLink f fd 1 segs)
          \<longrightarrow> readDirectory f tb =
                Inr (es, stopWarning tb fd (segmentCount ws1) segs (endLink f fd 1 segs)))
       \<and> (\<exists>segs. chainPath f fd 1 segs \<and> distinct segs \<and> length segs \<le> 31
            \<and> (\<forall>s \<in> set segs. inVolume tb fd (segmentCount ws1) s)
            \<and> (case decodeSegments f fd (dataStartBlock (parseSegmentHeader ws1)) segs 0 [] of
                  Inl e \<Rightarrow> readDirectory f tb = Inl e
                | Inr (es, off) \<Rightarrow>
                    walkEnds tb fd (segmentCount ws1) segs (endLink f fd 1 segs)
                    \<and> readDirectory f tb =
                        Inr (es, stopWarning tb fd (segmentCount ws1) segs (endLink f fd 1 segs))))"
proof (intro conjI allI impI)
  let ?n = "segmentCount ws1"
  let ?ds = "dataStartBlock (parseSegmentHeader ws1)"
  note rd = readDirectory_walk[OF assms]
  fix segs es off
  assume a: "chainPath f fd 1 segs \<and> distinct segs
            \<and> (\<forall>s \<in> set segs. inVolume tb fd ?n s)
            \<and> decodeSegments f fd ?ds segs 0 [] = Inr (es, off)
            \<and> walkEnds tb fd ?n segs (endLink f fd 1 segs)"
  have "walkChain f tb fd ?n ?ds 1 {} 0 [] =
        walkChain f tb fd ?n ?ds (endLink f fd 1 segs) ({} \<union> set segs) off es"
    using a by (intro walkChain_along) auto
  also have "\<dots> = Inr (es, stopWarning tb fd ?n segs (endLink f fd 1 segs))"
    using a by (simp add: walkChain_ends)
  finally show "readDirectory f tb = Inr (es, stopWarning tb fd ?n segs (endLink f fd 1 segs))"
    by (simp add: rd)
next
  let ?n = "segmentCount ws1"
  let ?ds = "dataStartBlock (parseSegmentHeader ws1)"
  note rd = readDirectory_walk[OF assms]
  from walkChain_path[of f fd 1 "{}" tb ?n ?ds 0 "[]"] obtain segs where
    s: "chainPath f fd 1 segs" "distinct segs" "\<forall>s \<in> set segs. inVolume tb fd ?n s"
    and r: "case decodeSegments f fd ?ds segs 0 [] of
              Inl e \<Rightarrow> walkChain f tb fd ?n ?ds 1 {} 0 [] = Inl e
            | Inr (es, off') \<Rightarrow>
                (endLink f fd 1 segs = 0 \<or> endLink f fd 1 segs > ?n
                   \<or> endLink f fd 1 segs \<in> {} \<union> set segs
                   \<or> tb \<le> segmentBlock fd (endLink f fd 1 segs) + 1)"
    by blast
  have len: "length segs \<le> 31"
    using distinct_bound[OF s(2,3)] segmentCount_range[of ws1] by linarith
  have "case decodeSegments f fd ?ds segs 0 [] of
                  Inl e \<Rightarrow> readDirectory f tb = Inl e
                | Inr (es, off) \<Rightarrow>
                    walkEnds tb fd ?n segs (endLink f fd 1 segs)
                    \<and> readDirectory f tb =
                        Inr (es, stopWarning tb fd ?n segs (endLink f fd 1 segs))"
  proof (cases "decodeSegments f fd ?ds segs 0 []")
    case (Inl e)
    with r show ?thesis by (simp add: rd)
  next
    case (Inr p)
    obtain es off where p: "p = (es, off)" by (cases p)
    from r Inr p have e: "walkEnds tb fd ?n segs (endLink f fd 1 segs)"
      by (simp add: walkEnds_def)
    have "walkChain f tb fd ?n ?ds 1 {} 0 [] =
          walkChain f tb fd ?n ?ds (endLink f fd 1 segs) ({} \<union> set segs) off es"
      using s Inr p by (intro walkChain_along) auto
    also have "\<dots> = Inr (es, stopWarning tb fd ?n segs (endLink f fd 1 segs))"
      using e by (simp add: walkChain_ends)
    finally show ?thesis using e Inr p by (simp add: rd)
  qed
  with s len show "\<exists>segs. chainPath f fd 1 segs \<and> distinct segs \<and> length segs \<le> 31
            \<and> (\<forall>s \<in> set segs. inVolume tb fd ?n s)
            \<and> (case decodeSegments f fd ?ds segs 0 [] of
                  Inl e \<Rightarrow> readDirectory f tb = Inl e
                | Inr (es, off) \<Rightarrow>
                    walkEnds tb fd ?n segs (endLink f fd 1 segs)
                    \<and> readDirectory f tb =
                        Inr (es, stopWarning tb fd ?n segs (endLink f fd 1 segs)))"
    by blast
qed

lemma loop_first: "getFirstDirectoryBlock loopImage = Inr 2"
  using getFirstDirectoryBlock_home[of loopImage 2] by (simp add: loopImage_def)

lemma loop_link: "linkOf loopImage 2 1 = 1"
  using loop_read
  by (simp add: linkOf_def parseSegmentHeader_def loopSegment_def segmentOf_def)

theorem readDirectory_walk_stops_witness:
  "readDirectory loopImage 5 =
     Inr ([\<lparr>name = ''A'', startBlock = 6, lengthBlocks = 3, status = 0x400,
             dateWord = 0, tentative = False, empty' = False, permanent = True, eos = False,
             segNumber = 1, wordIndex = 5\<rparr>], Some (DirectoryLoop 1))"
proof -
  have r: "readSegmentWords loopImage 2 = Inr loopSegment"
    using loop_read by (simp add: segmentBlock_def)
  have h: "segmentCount loopSegment = 1"
      "dataStartBlock (parseSegmentHeader loopSegment) = 6"
    by (simp_all add: segmentCount_def parseSegmentHeader_def loopSegment_def segmentOf_def)
  have d: "decodeSegments loopImage 2 6 [1] 0 [] =
     Inr ([\<lparr>name = ''A'', startBlock = 6, lengthBlocks = 3, status = 0x400,
             dateWord = 0, tentative = False, empty' = False, permanent = True, eos = False,
             segNumber = 1, wordIndex = 5\<rparr>], 3)"
    by (simp add: loop_read loop_parse del: One_nat_def)
  have v: "inVolume 5 2 1 1"
    by (simp add: inVolume_def segmentBlock_def DIR_SEGMENT_BLOCKS_def)
  show ?thesis
    using readDirectory_walk_stops[OF loop_first _ r, of 5, THEN conjunct1, rule_format,
            of "[1]" _ 3] d v
    by (simp add: h loop_link walkEnds_def stopWarning_def del: One_nat_def)
qed

text \<open>
  Claim C4 as the specification states it fails for segment 1: \<open>readDirectory\<close> reads
  both blocks of the first segment before the walk starts, and only the first of them is
  checked against \<open>totalBlocks\<close>. In \<open>cutImage\<close> segment 1 is at blocks 2 and 3 of
  a volume of 3 blocks; the call ends with the read failure of block 3, not with a warning
  and an empty list.
\<close>

theorem readDirectory_walk_stops_counterexample:
  "length (blocks cutImage) = 3
   \<and> getFirstDirectoryBlock cutImage = Inr 2
   \<and> segmentBlock 2 1 + 1 = 3
   \<and> readDirectory cutImage 3 = Inl (SeekReadFailed 3)"
proof -
  have g: "getFirstDirectoryBlock cutImage = Inr 2"
    using getFirstDirectoryBlock_home[of cutImage 2] by (simp add: cutImage_def)
  have r: "readSegmentWords cutImage 2 = Inl (SeekReadFailed 3)"
    by (simp add: readSegmentWords_def readBlock_def cutImage_def)
  have l: "length (blocks cutImage) = 3" by (simp add: cutImage_def)
  have b: "segmentBlock 2 1 + 1 = 3" by (simp add: segmentBlock_def DIR_SEGMENT_BLOCKS_def)
  have d: "readDirectory cutImage 3 = Inl (SeekReadFailed 3)"
    by (simp add: g r readDirectory_def)
  from l g b d show ?thesis by blast
qed

section \<open>Start blocks\<close>

text \<open>
  Claim C2, as the code has it. The field \<open>startBlock\<close> is 16 bits wide and the sum is
  narrowed to it: every entry that \<open>readDirectory\<close> returns starts at the data start
  block of the first segment plus the lengths of all entries before it in the returned
  list, which is in chain order across all segments, reduced modulo 65536. It is that sum
  itself whenever the sum is below 65536.
\<close>

theorem readDirectory_startBlock:
  assumes "getFirstDirectoryBlock f = Inr fd"
    and "readSegmentWords f fd = Inr segWords"
    and "readDirectory f tb = Inr (entries, w)"
    and "k < length entries"
  shows "startBlock (entries ! k) =
           (dataStartBlock (parseSegmentHeader segWords)
              + sum_list (map lengthBlocks (take k entries))) mod 65536"
proof -
  from assms(1,2,3) obtain nsegs where
    "walkChain f tb fd nsegs (dataStartBlock (parseSegmentHeader segWords)) 1 {} 0 []
       = Inr (entries, w)"
    by (auto simp: readDirectory_def Let_def split: if_splits)
  then have "startsOk (dataStartBlock (parseSegmentHeader segWords)) entries"
    by (rule walkChain_starts) (simp_all add: startsOk_def)
  with assms(4) show ?thesis by (simp add: startsOk_def)
qed

theorem readDirectory_startBlock_witness:
  "startBlock ([\<lparr>name = ''A'', startBlock = 60000, lengthBlocks = 10000, status = 0x400,
             dateWord = 0, tentative = False, empty' = False, permanent = True, eos = False,
             segNumber = 1, wordIndex = 5\<rparr>,
           \<lparr>name = '''', startBlock = 4464, lengthBlocks = 100, status = 0x200,
             dateWord = 0, tentative = False, empty' = True, permanent = False, eos = False,
             segNumber = 1, wordIndex = (12::nat)\<rparr>] ! 1) = (60000 + 10000) mod 65536"
proof -
  have r: "readSegmentWords wrapImage 2 = Inr wrapSegment"
    using wrap_read by (simp add: segmentBlock_def)
  show ?thesis
    using readDirectory_startBlock[OF wrap_first r wrap_directory, of 1]
    by (simp add: wrap_header)
qed

text \<open>
  Claim C2 as the specification states it fails where the sum passes 65535: in the image
  \<open>wrapImage\<close> the data area starts at block 60000 and the first entry has 10000 blocks,
  so the sum for the second entry is 70000, and its \<open>startBlock\<close> is 4464.
\<close>

theorem readDirectory_startBlock_counterexample:
  "readDirectory wrapImage 5 =
     Inr ([\<lparr>name = ''A'', startBlock = 60000, lengthBlocks = 10000, status = 0x400,
             dateWord = 0, tentative = False, empty' = False, permanent = True, eos = False,
             segNumber = 1, wordIndex = 5\<rparr>,
           \<lparr>name = '''', startBlock = 4464, lengthBlocks = 100, status = 0x200,
             dateWord = 0, tentative = False, empty' = True, permanent = False, eos = False,
             segNumber = 1, wordIndex = 12\<rparr>], None)
   \<and> readSegmentWords wrapImage 2 = Inr wrapSegment
   \<and> dataStartBlock (parseSegmentHeader wrapSegment) + 10000 = 70000"
  using wrap_directory wrap_read by (simp add: wrap_header segmentBlock_def)


section \<open>Writing segments back\<close>


lemma writeSegmentWords_in_range:
  assumes "b + 1 < length (blocks f)"
  shows "writeSegmentWords f b ws = (Inr (), putSegment f b ws)"
  using assms
  by (simp add: writeSegmentWords_def writeBlock_def BLOCK_SIZE_def putSegment_def)

lemma length_putSegment [simp]: "length (blocks (putSegment f b ws)) = length (blocks f)"
  by (simp add: putSegment_def)

lemma written_putSegment [simp]: "written (putSegment f b ws) = written f @ [b, b + 1]"
  by (simp add: putSegment_def)

lemma readSegmentWords_putSegment_same:
  assumes "b + 1 < length (blocks f)" and "length ws = 512"
  shows "readSegmentWords (putSegment f b ws) b = Inr ws"
  using assms
  by (simp add: readSegmentWords_def readBlock_def putSegment_def segment_roundtrip)


lemma readBlock_putSegment_other:
  assumes "b' < b \<or> b + 1 < b'"
  shows "readBlock (putSegment f b ws) b' = readBlock f b'"
  using assms by (auto simp: readBlock_def putSegment_def)

lemma readBlock_in_range: "b < length (blocks f) \<Longrightarrow> \<exists>blk. readBlock f b = Inr blk"
  by (simp add: readBlock_def)

lemma splitDirectorySegment_run:
  assumes fd: "getFirstDirectoryBlock f = Inr fd"
    and s1: "readSegmentWords f fd = Inr s1"
    and n: "totalSegments (parseSegmentHeader s1) = nsegs" "0 < nsegs" "nsegs \<le> 31"
    and used: "chainWalk f fd nsegs 1 {} = Inr used"
    and seg: "1 \<le> seg" "seg \<le> nsegs" "seg \<in> used"
    and new: "find (\<lambda>s. s \<notin> used) [1..<Suc nsegs] = Some newSeg"
    and ws: "readSegmentWords f (segmentBlock fd seg) = Inr ws"
    and idx: "collectEntryIdx ws (parseSegmentHeader ws) 5 [] = entryIdx" "entryIdx \<noteq> []"
    and rng: "segmentBlock fd seg + 1 < length (blocks f)"
             "segmentBlock fd newSeg + 1 < length (blocks f)"
             "fd + 1 < length (blocks f)"
  shows "splitDirectorySegment f seg =
     (Inr (),
      (let old = ws[entryIdx ! chooseMidPos ws entryIdx := E_EOS, 1 := of_nat newSeg];
           f1 = putSegment f (segmentBlock fd seg) old;
           f2 = putSegment f1 (segmentBlock fd newSeg)
                  (buildNewSegment ws (parseSegmentHeader ws) entryIdx (chooseMidPos ws entryIdx))
       in if highestInUse (parseSegmentHeader s1) < newSeg
          then putSegment f2 fd (s1[2 := of_nat newSeg])
          else f2))"
proof -
  let ?old = "ws[entryIdx ! chooseMidPos ws entryIdx := E_EOS, 1 := of_nat newSeg]"
  let ?f1 = "putSegment f (segmentBlock fd seg) ?old"
  let ?new = "buildNewSegment ws (parseSegmentHeader ws) entryIdx (chooseMidPos ws entryIdx)"
  let ?f2 = "putSegment ?f1 (segmentBlock fd newSeg) ?new"
  have w1: "writeSegmentWords f (segmentBlock fd seg) ?old = (Inr (), ?f1)"
    by (rule writeSegmentWords_in_range[OF rng(1)])
  obtain nb0 where nb0: "readBlock ?f1 (segmentBlock fd newSeg) = Inr nb0"
    using readBlock_in_range[of "segmentBlock fd newSeg" ?f1] rng(2) by auto
  obtain nb1 where nb1: "readBlock ?f1 (segmentBlock fd newSeg + 1) = Inr nb1"
    using readBlock_in_range[of "segmentBlock fd newSeg + 1" ?f1] rng(2) by auto
  have w2: "writeSegmentWords ?f1 (segmentBlock fd newSeg) ?new = (Inr (), ?f2)"
    by (rule writeSegmentWords_in_range) (use rng(2) in simp)
  have w3: "writeSegmentWords ?f2 fd (s1[2 := of_nat newSeg])
              = (Inr (), putSegment ?f2 fd (s1[2 := of_nat newSeg]))"
    by (rule writeSegmentWords_in_range) (use rng(3) in simp)
  have m: "highestInUse (parseSegmentHeader s1) < newSeg \<Longrightarrow>
      max (highestInUse (parseSegmentHeader s1)) newSeg = newSeg" by simp
  show ?thesis
    using n seg idx(2)
    by (simp add: splitDirectorySegment_def fd s1 Let_def used new ws idx(1) w1 nb0 nb1 w2 w3 m
          max_def del: One_nat_def upt_Suc)
qed


section \<open>The split point and the split of the example images\<close>



lemma chainWalk_end:
  "cur = 0 \<or> cur > nsegs \<Longrightarrow> chainWalk f fd nsegs cur used = Inr used"
  by (subst chainWalk.simps) auto

lemma chainWalk_step:
  assumes "1 \<le> cur" "cur \<le> nsegs" "cur \<notin> used"
    and "readSegmentWords f (segmentBlock fd cur) = Inr w"
  shows "chainWalk f fd nsegs cur used = chainWalk f fd nsegs (unat (w ! 1)) (insert cur used)"
  using assms by (subst chainWalk.simps) auto




lemma splitSegment_idx:
  "collectEntryIdx splitSegment (parseSegmentHeader splitSegment) 5 [] = [5, 12, 19]"
  by (simp add: collectEntryIdx.simps eval_entries splitSegment_def)

lemma splitSegment_mid: "chooseMidPos splitSegment [5, 12, 19] = 1"
  by (simp add: chooseMidPos_def movablePositions_def eval_entries splitSegment_def upt_rec)







lemma find_unused_2: "find (\<lambda>s. s \<notin> {1::nat}) [1..<Suc 2] = Some 2"
  by (simp add: upt_rec)






lemma writeSegmentWords_written:
  "writeSegmentWords f b ws = (r, f') \<Longrightarrow> r = Inr () \<and> written f' = written f @ [b, b + 1]"
  by (auto simp: writeSegmentWords_def writeBlock_def BLOCK_SIZE_def split: if_splits)

lemma split_commit_order:
  assumes "splitDirectorySegment f seg = (Inr (), f')"
    and "getFirstDirectoryBlock f = Inr fd"
    and "readSegmentWords f fd = Inr s1"
    and "chainWalk f fd (totalSegments (parseSegmentHeader s1)) 1 {} = Inr used"
    and "find (\<lambda>s. s \<notin> used) [1..<Suc (totalSegments (parseSegmentHeader s1))] = Some newSeg"
  shows "written f' = written f
           @ [segmentBlock fd seg, segmentBlock fd seg + 1,
              segmentBlock fd newSeg, segmentBlock fd newSeg + 1]
           @ (if highestInUse (parseSegmentHeader s1) < newSeg then [fd, fd + 1] else [])"
  using assms
  by (auto simp: splitDirectorySegment_def Let_def max_def
           split: if_splits sum.splits prod.splits
           dest!: writeSegmentWords_written
           simp del: upt_Suc One_nat_def)

lemma split_failure_unchanged:
  assumes "splitDirectorySegment f seg = (Inl e, f')"
    and "e \<in> {InvalidTotalSegments, DirectoryLinkLoop, SegmentNotInChain, DirectoryFull,
              EmptySegment}"
  shows "f' = f"
proof -
  have rb: "\<And>g b x. readBlock g b = Inl x \<Longrightarrow> x = SeekReadFailed b"
    by (simp add: readBlock_def split: if_splits)
  have rs: "\<And>g b x. readSegmentWords g b = Inl x \<Longrightarrow> \<exists>n. x = SeekReadFailed n"
    by (auto simp: readSegmentWords_def dest: rb split: sum.splits)
  show ?thesis
    using assms
    by (auto simp: splitDirectorySegment_def Let_def
           split: if_splits sum.splits prod.splits option.splits
           dest!: writeSegmentWords_written rb
           simp del: upt_Suc One_nat_def)
qed



section \<open>The split of segment 1\<close>

lemma getFirstDirectoryBlock_putSegment:
  "1 < b \<Longrightarrow> getFirstDirectoryBlock (putSegment f b ws) = getFirstDirectoryBlock f"
  by (simp add: getFirstDirectoryBlock_def readBlock_putSegment_other)

lemma split_first: "getFirstDirectoryBlock splitImage = Inr 2"
  using getFirstDirectoryBlock_home[of splitImage 2] by (simp add: splitImage_def)

lemma split_read: "readSegmentWords splitImage (segmentBlock 2 1) = Inr splitSegment"
  by (rule readSegmentWords_blocks)
     (simp_all add: splitImage_def splitSegment_def length_segmentOf segmentBlock_def)

lemma split_header:
  "parseSegmentHeader splitSegment =
     \<lparr>totalSegments = 2, nextSegment = 0, highestInUse = 1, extraBytes = 0,
      dataStartBlock = 6\<rparr>"
  by (simp add: parseSegmentHeader_def splitSegment_def segmentOf_def)

lemma split_chain: "chainWalk splitImage 2 2 1 {} = Inr {1}"
proof -
  have "chainWalk splitImage 2 2 1 {} =
        chainWalk splitImage 2 2 (unat (splitSegment ! 1)) (insert 1 {})"
    by (rule chainWalk_step[OF _ _ _ split_read]) simp_all
  also have "\<dots> = Inr {1}"
    by (rule chainWalk_end) (simp add: splitSegment_def segmentOf_def)
  finally show ?thesis .
qed

lemma split_run:
  "splitDirectorySegment splitImage 1 =
     (Inr (), putSegment
                (putSegment
                   (putSegment splitImage 2 (splitSegment[12 := E_EOS, 1 := 2]))
                   4 (buildNewSegment splitSegment (parseSegmentHeader splitSegment)
                        [5, 12, 19] 1))
                2 (splitSegment[2 := 2]))"
proof -
  have r: "readSegmentWords splitImage 2 = Inr splitSegment"
    using split_read by (simp add: segmentBlock_def)
  show ?thesis
    using splitDirectorySegment_run[OF split_first r _ _ _ split_chain _ _ _
        find_unused_2 split_read splitSegment_idx]
    by (simp add: split_header splitSegment_mid segmentBlock_def DIR_SEGMENT_BLOCKS_def
          splitImage_def)
qed

lemma split_after_read:
  "readSegmentWords
     (putSegment
        (putSegment (putSegment splitImage 2 (splitSegment[12 := E_EOS, 1 := 2]))
           4 (buildNewSegment splitSegment (parseSegmentHeader splitSegment) [5, 12, 19] 1))
        2 (splitSegment[2 := 2]))
     (segmentBlock 2 1) = Inr (splitSegment[2 := 2])"
  unfolding segmentBlock_def
  by (simp, rule readSegmentWords_putSegment_same)
     (simp_all add: splitImage_def splitSegment_def length_segmentOf)

lemma split_after_first:
  "getFirstDirectoryBlock
     (putSegment
        (putSegment (putSegment splitImage 2 (splitSegment[12 := E_EOS, 1 := 2]))
           4 (buildNewSegment splitSegment (parseSegmentHeader splitSegment) [5, 12, 19] 1))
        2 (splitSegment[2 := 2])) = Inr 2"
  by (simp add: getFirstDirectoryBlock_putSegment split_first)

lemma split_after_header:
  "parseSegmentHeader (splitSegment[2 := 2]) =
     \<lparr>totalSegments = 2, nextSegment = 0, highestInUse = 2, extraBytes = 0,
      dataStartBlock = 6\<rparr>"
  by (simp add: parseSegmentHeader_def splitSegment_def segmentOf_def)

lemma split_after_parse:
  "parseEntries (splitSegment[2 := 2]) 1 (parseSegmentHeader (splitSegment[2 := 2])) 6 5 0 [] =
     Inr ([\<lparr>name = ''A'', startBlock = 6, lengthBlocks = 1, status = 0x400,
             dateWord = 0, tentative = False, empty' = False, permanent = True, eos = False,
             segNumber = 1, wordIndex = 5\<rparr>,
           \<lparr>name = ''B'', startBlock = 7, lengthBlocks = 1, status = 0x400,
             dateWord = 0, tentative = False, empty' = False, permanent = True, eos = False,
             segNumber = 1, wordIndex = 12\<rparr>,
           \<lparr>name = '''', startBlock = 8, lengthBlocks = 2, status = 0x200,
             dateWord = 0, tentative = False, empty' = True, permanent = False, eos = False,
             segNumber = 1, wordIndex = 19\<rparr>], 4)"
  by (simp add: eval_entries splitSegment_def)

text \<open>
  Claim C3 says that after the split the old segment holds the entries before the split
  point, with the sentinel on the entry at the split point. In \<open>splitImage\<close> segment 1
  holds \<open>A\<close>, \<open>B\<close> and an empty area, the free segment is number 2 and
  \<open>highestInUse\<close> is 1. The split point is position 1 (entry \<open>B\<close>, word 12). The call
  succeeds and writes three segments: the old segment with the sentinel at word 12 and the
  link 2, the new segment, and then segment 1 again from the copy read at the start of the
  call, with only \<open>highestInUse\<close> changed. Segment 1 is the old segment, so the last
  write puts its three entries and its link 0 back: read from the image, the directory is
  the one before the split, and the new segment is not linked.
\<close>

theorem splitDirectorySegment_segment1_undone:
  "chooseMidPos splitSegment [5, 12, 19] = 1
   \<and> splitDirectorySegment splitImage 1 =
       (Inr (), putSegment
                  (putSegment
                     (putSegment splitImage 2 (splitSegment[12 := E_EOS, 1 := 2]))
                     4 (buildNewSegment splitSegment (parseSegmentHeader splitSegment)
                          [5, 12, 19] 1))
                  2 (splitSegment[2 := 2]))
   \<and> readSegmentWords
        (putSegment
           (putSegment (putSegment splitImage 2 (splitSegment[12 := E_EOS, 1 := 2]))
              4 (buildNewSegment splitSegment (parseSegmentHeader splitSegment) [5, 12, 19] 1))
           2 (splitSegment[2 := 2]))
        2 = Inr (splitSegment[2 := 2])
   \<and> nextSegment (parseSegmentHeader (splitSegment[2 := 2])) = 0
   \<and> highestInUse (parseSegmentHeader (splitSegment[2 := 2])) = 2
   \<and> readDirectory
        (putSegment
           (putSegment (putSegment splitImage 2 (splitSegment[12 := E_EOS, 1 := 2]))
              4 (buildNewSegment splitSegment (parseSegmentHeader splitSegment) [5, 12, 19] 1))
           2 (splitSegment[2 := 2]))
        6 =
       Inr ([\<lparr>name = ''A'', startBlock = 6, lengthBlocks = 1, status = 0x400,
               dateWord = 0, tentative = False, empty' = False, permanent = True, eos = False,
               segNumber = 1, wordIndex = 5\<rparr>,
             \<lparr>name = ''B'', startBlock = 7, lengthBlocks = 1, status = 0x400,
               dateWord = 0, tentative = False, empty' = False, permanent = True, eos = False,
               segNumber = 1, wordIndex = 12\<rparr>,
             \<lparr>name = '''', startBlock = 8, lengthBlocks = 2, status = 0x200,
               dateWord = 0, tentative = False, empty' = True, permanent = False, eos = False,
               segNumber = 1, wordIndex = 19\<rparr>], None)"
proof -
  let ?F = "putSegment
           (putSegment (putSegment splitImage 2 (splitSegment[12 := E_EOS, 1 := 2]))
              4 (buildNewSegment splitSegment (parseSegmentHeader splitSegment) [5, 12, 19] 1))
           2 (splitSegment[2 := 2])"
  let ?es = "[\<lparr>name = ''A'', startBlock = 6, lengthBlocks = 1, status = 0x400,
               dateWord = 0, tentative = False, empty' = False, permanent = True, eos = False,
               segNumber = 1, wordIndex = 5\<rparr>,
             \<lparr>name = ''B'', startBlock = 7, lengthBlocks = 1, status = 0x400,
               dateWord = 0, tentative = False, empty' = False, permanent = True, eos = False,
               segNumber = 1, wordIndex = 12\<rparr>,
             \<lparr>name = '''', startBlock = 8, lengthBlocks = 2, status = 0x200,
               dateWord = 0, tentative = False, empty' = True, permanent = False, eos = False,
               segNumber = (1::nat), wordIndex = (19::nat)\<rparr>]"
  have r: "readSegmentWords ?F 2 = Inr (splitSegment[2 := 2])"
    using split_after_read by (simp add: segmentBlock_def)
  have "readDirectory ?F 6 = walkChain ?F 6 2 2 6 1 {} 0 []"
    unfolding readDirectory_def split_after_first
    by (simp add: r Let_def split_after_header del: One_nat_def)
  also have "\<dots> = walkChain ?F 6 2 2 6 (nextSegment (parseSegmentHeader (splitSegment[2 := 2])))
      (insert 1 {}) 4 ?es"
    by (rule walkChain_step[OF _ _ _ _ split_after_read split_after_parse])
       (simp_all add: segmentBlock_def DIR_SEGMENT_BLOCKS_def)
  also have "\<dots> = Inr (?es, None)"
    by (simp add: split_after_header walkChain_end)
  finally have d: "readDirectory ?F 6 = Inr (?es, None)" .
  show ?thesis
    using splitSegment_mid split_run r d by (simp add: split_after_header)
qed

section \<open>Entries of a segment, one at a time\<close>

lemma prefixed_simps [simp]:
  "prefixed acc (Inl e) = Inl e"
  "prefixed acc (Inr (es, off)) = Inr (acc @ es, off)"
  "prefixed [] r = r"
  "prefixed a (prefixed b r) = prefixed (a @ b) r"
  by (auto simp: prefixed_def split: sum.splits)

lemma parseEntries_unfold:
  "parseEntries ws seg hdr ds idx off acc =
     (case entryAt ws seg hdr ds idx off of
        None \<Rightarrow> Inr (acc, off)
      | Some (Inl e) \<Rightarrow> Inl e
      | Some (Inr e) \<Rightarrow>
          parseEntries ws seg hdr ds (idx + entryWords hdr)
            ((off + lengthBlocks e) mod 4294967296) (acc @ [e]))"
proof -
  have m: "idx + entryWords hdr \<le> 512 \<Longrightarrow> (idx + entryWords hdr) mod 65536 = idx + entryWords hdr"
    by simp
  show ?thesis
    by (subst parseEntries.simps) (auto simp: entryAt_def Let_def m split: sum.splits)
qed

lemma entryAt_bound: "entryAt ws seg hdr ds idx off = Some r \<Longrightarrow> idx + entryWords hdr \<le> 512"
  by (simp add: entryAt_def split: if_splits)

lemma entryWords_pos: "7 \<le> entryWords hdr"
  by (simp add: entryWords_def)

lemma entryAt_cong:
  assumes "\<And>j. idx \<le> j \<Longrightarrow> j < idx + 7 \<Longrightarrow> ws' ! j = ws ! j"
  shows "entryAt ws' seg hdr ds idx off = entryAt ws seg hdr ds idx off"
proof -
  have "ws' ! idx = ws ! idx" "ws' ! (idx + 1) = ws ! (idx + 1)"
    "ws' ! (idx + 2) = ws ! (idx + 2)" "ws' ! (idx + 3) = ws ! (idx + 3)"
    "ws' ! (idx + 4) = ws ! (idx + 4)" "ws' ! (idx + 6) = ws ! (idx + 6)"
    by (simp_all add: assms)
  then show ?thesis by (auto simp: entryAt_def split: sum.splits)
qed

lemma entryAt_fields:
  assumes "entryAt ws seg hdr ds idx off = Some (Inr e)"
  shows "wordIndex e = idx" and "segNumber e = seg"
    and "lengthBlocks e = unat (ws ! (idx + 4))"
    and "startBlock e = ((ds + off) mod 4294967296) mod 65536"
  using assms by (auto simp: entryAt_def split: if_splits sum.splits)

lemma parse_acc:
  "parseEntries ws seg hdr ds idx off acc = prefixed acc (parseEntries ws seg hdr ds idx off [])"
proof (induction "513 - idx" arbitrary: idx off acc rule: less_induct)
  case less
  show ?case
  proof (cases "entryAt ws seg hdr ds idx off")
    case None
    then show ?thesis by (simp add: parseEntries_unfold[of ws seg hdr ds idx])
  next
    case (Some r)
    show ?thesis
    proof (cases r)
      case (Inl e)
      with Some show ?thesis by (simp add: parseEntries_unfold[of ws seg hdr ds idx])
    next
      case (Inr e)
      from entryAt_bound[OF Some] entryWords_pos[of hdr]
      have d: "513 - (idx + entryWords hdr) < 513 - idx" by linarith
      have a: "parseEntries ws seg hdr ds idx off acc =
          prefixed (acc @ [e]) (parseEntries ws seg hdr ds (idx + entryWords hdr)
             ((off + lengthBlocks e) mod 4294967296) [])"
        using Some Inr less[OF d, of _ "acc @ [e]"]
        by (simp add: parseEntries_unfold[of ws seg hdr ds idx])
      have b: "parseEntries ws seg hdr ds idx off [] =
          prefixed [e] (parseEntries ws seg hdr ds (idx + entryWords hdr)
             ((off + lengthBlocks e) mod 4294967296) [])"
        using Some Inr less[OF d, of _ "[e]"]
        by (simp add: parseEntries_unfold[of ws seg hdr ds idx])
      show ?thesis unfolding a b by simp
    qed
  qed
qed

lemma parse_agree_above:
  assumes "\<And>j. idx \<le> j \<Longrightarrow> ws' ! j = ws ! j"
  shows "parseEntries ws' seg hdr ds idx off acc = parseEntries ws seg hdr ds idx off acc"
  using assms
proof (induction "513 - idx" arbitrary: idx off acc rule: less_induct)
  case less
  have c: "entryAt ws' seg hdr ds idx off = entryAt ws seg hdr ds idx off"
    by (rule entryAt_cong) (simp add: less.prems)
  show ?case
  proof (cases "entryAt ws seg hdr ds idx off")
    case None
    with c show ?thesis
      by (simp add: parseEntries_unfold[of _ seg hdr ds idx])
  next
    case (Some r)
    from entryAt_bound[OF Some] entryWords_pos[of hdr]
    have d: "513 - (idx + entryWords hdr) < 513 - idx" by linarith
    have "\<And>e. parseEntries ws' seg hdr ds (idx + entryWords hdr)
             ((off + lengthBlocks e) mod 4294967296) (acc @ [e])
        = parseEntries ws seg hdr ds (idx + entryWords hdr)
             ((off + lengthBlocks e) mod 4294967296) (acc @ [e])"
      by (rule less.hyps[OF d]) (simp add: less.prems)
    with c Some show ?thesis
      by (simp add: parseEntries_unfold[of _ seg hdr ds idx] split: sum.splits)
  qed
qed

lemma parse_first:
  assumes "parseEntries ws seg hdr ds i off [] = Inr (es, fin)" and "es \<noteq> []"
  shows "entryAt ws seg hdr ds i off = Some (Inr (hd es))
       \<and> parseEntries ws seg hdr ds (i + entryWords hdr)
            ((off + lengthBlocks (hd es)) mod 4294967296) [] = Inr (tl es, fin)"
proof (cases "entryAt ws seg hdr ds i off")
  case None
  with assms show ?thesis by (simp add: parseEntries_unfold[of ws seg hdr ds i])
next
  case (Some r)
  show ?thesis
  proof (cases r)
    case (Inl e)
    with Some assms show ?thesis by (simp add: parseEntries_unfold[of ws seg hdr ds i])
  next
    case (Inr e)
    have "parseEntries ws seg hdr ds i off [] =
        prefixed [e] (parseEntries ws seg hdr ds (i + entryWords hdr)
             ((off + lengthBlocks e) mod 4294967296) [])"
      using Some Inr
      by (simp add: parseEntries_unfold[of ws seg hdr ds i]
            parse_acc[of ws seg hdr ds "i + entryWords hdr" _ "[e]"])
    with assms(1) have "prefixed [e] (parseEntries ws seg hdr ds (i + entryWords hdr)
             ((off + lengthBlocks e) mod 4294967296) []) = Inr (es, fin)" by simp
    then obtain r' where "parseEntries ws seg hdr ds (i + entryWords hdr)
             ((off + lengthBlocks e) mod 4294967296) [] = Inr (r', fin)" and "es = e # r'"
      by (auto simp: prefixed_def split: sum.splits)
    with Some Inr show ?thesis by simp
  qed
qed

lemma parse_reach:
  assumes "parseEntries ws seg hdr ds i off [] = Inr (es, fin)" and "k < length es"
  shows "\<exists>offk. wordIndex (es ! k) = i + k * entryWords hdr
     \<and> entryAt ws seg hdr ds (i + k * entryWords hdr) offk = Some (Inr (es ! k))
     \<and> parseEntries ws seg hdr ds (i + k * entryWords hdr) offk [] = Inr (drop k es, fin)
     \<and> (\<forall>ws'. (\<forall>j < i + k * entryWords hdr. ws' ! j = ws ! j) \<longrightarrow>
            parseEntries ws' seg hdr ds i off [] =
              prefixed (take k es) (parseEntries ws' seg hdr ds (i + k * entryWords hdr) offk []))"
  using assms
proof (induction k arbitrary: i off es)
  case 0
  then have ne: "es \<noteq> []" by auto
  from parse_first[OF "0.prems"(1) ne]
  have e: "entryAt ws seg hdr ds i off = Some (Inr (hd es))" by simp
  then have "wordIndex (hd es) = i"
    by (rule entryAt_fields)
  with e "0.prems" ne show ?case
    by (intro exI[of _ off]) (simp add: hd_conv_nth)
next
  case (Suc k)
  then have ne: "es \<noteq> []" by auto
  let ?ew = "entryWords hdr"
  let ?off1 = "(off + lengthBlocks (hd es)) mod 4294967296"
  from parse_first[OF Suc.prems(1) ne]
  have e: "entryAt ws seg hdr ds i off = Some (Inr (hd es))"
    and r: "parseEntries ws seg hdr ds (i + ?ew) ?off1 [] = Inr (tl es, fin)" by simp_all
  from Suc.prems(2) ne have k: "k < length (tl es)" by (cases es) auto
  from Suc.IH[OF r k] obtain offk where
    w: "wordIndex (tl es ! k) = i + ?ew + k * ?ew"
    and a: "entryAt ws seg hdr ds (i + ?ew + k * ?ew) offk = Some (Inr (tl es ! k))"
    and p: "parseEntries ws seg hdr ds (i + ?ew + k * ?ew) offk [] = Inr (drop k (tl es), fin)"
    and c: "\<And>ws'. (\<forall>j < i + ?ew + k * ?ew. ws' ! j = ws ! j) \<Longrightarrow>
            parseEntries ws' seg hdr ds (i + ?ew) ?off1 [] =
              prefixed (take k (tl es))
                (parseEntries ws' seg hdr ds (i + ?ew + k * ?ew) offk [])"
    by blast
  have idx: "i + Suc k * ?ew = i + ?ew + k * ?ew" by simp
  have nth: "es ! Suc k = tl es ! k" using ne by (cases es) auto
  have dr: "drop (Suc k) es = drop k (tl es)" using ne by (cases es) auto
  have tk: "take (Suc k) es = hd es # take k (tl es)" using ne by (cases es) auto
  have c': "parseEntries ws' seg hdr ds i off [] =
              prefixed (take (Suc k) es)
                (parseEntries ws' seg hdr ds (i + Suc k * ?ew) offk [])"
    if ag: "\<forall>j < i + Suc k * ?ew. ws' ! j = ws ! j" for ws'
  proof -
    from entryWords_pos[of hdr] have "i + 7 \<le> i + Suc k * ?ew" by simp
    with ag have "entryAt ws' seg hdr ds i off = entryAt ws seg hdr ds i off"
      by (intro entryAt_cong) simp
    with e have "parseEntries ws' seg hdr ds i off [] =
        prefixed [hd es] (parseEntries ws' seg hdr ds (i + ?ew) ?off1 [])"
      by (simp add: parseEntries_unfold[of ws' seg hdr ds i]
            parse_acc[of ws' seg hdr ds "i + ?ew" _ "[hd es]"])
    also have "parseEntries ws' seg hdr ds (i + ?ew) ?off1 [] =
        prefixed (take k (tl es)) (parseEntries ws' seg hdr ds (i + ?ew + k * ?ew) offk [])"
      using ag by (intro c) simp
    finally show ?thesis by (simp add: tk add.assoc)
  qed
  show ?case
    by (intro exI[of _ offk]) (use w a p c' in \<open>simp add: nth dr add.assoc\<close>)
qed

section \<open>Words of an updated segment\<close>

lemma fold_update_length:
  "length (fold (\<lambda>i w. w[g i := h i w]) is ws) = length ws"
  by (induction "is" arbitrary: ws) simp_all

lemma fold_update_other:
  assumes "\<And>i. i \<in> set is \<Longrightarrow> g i \<noteq> j"
  shows "fold (\<lambda>i w. w[g i := h i w]) is ws ! j = ws ! j"
  using assms by (induction "is" arbitrary: ws) simp_all

lemma shiftUp_facts:
  "length (shiftUp ws ew ins eosIdx) = length ws"
  "j < ins + ew \<Longrightarrow> shiftUp ws ew ins eosIdx ! j = ws ! j"
proof -
  show "length (shiftUp ws ew ins eosIdx) = length ws"
    unfolding shiftUp_def by (rule fold_update_length[of "\<lambda>i. i + ew" "\<lambda>i w. w ! i"])
  show "shiftUp ws ew ins eosIdx ! j = ws ! j" if "j < ins + ew"
    unfolding shiftUp_def
    by (rule fold_update_other[of _ "\<lambda>i. i + ew" j "\<lambda>i w. w ! i"]) (use that in auto)
qed

lemma clear_facts:
  "length (fold (\<lambda>w a. a[base + w := (0::word16)]) [0..<ew] ws) = length ws"
  "j < base \<Longrightarrow> fold (\<lambda>w a. a[base + w := (0::word16)]) [0..<ew] ws ! j = ws ! j"
proof -
  show "length (fold (\<lambda>w a. a[base + w := (0::word16)]) [0..<ew] ws) = length ws"
    by (rule fold_update_length[of "\<lambda>w. base + w" "\<lambda>w a. 0"])
  show "fold (\<lambda>w a. a[base + w := (0::word16)]) [0..<ew] ws ! j = ws ! j" if "j < base"
    by (rule fold_update_other[of _ "\<lambda>w. base + w" j "\<lambda>w a. 0"]) (use that in auto)
qed

lemma status_bits:
  "E_PERM AND E_EOS = 0" "E_PERM \<noteq> 0" "E_PERM AND E_TENT = 0" "E_PERM AND E_MPTY = 0"
  "E_PERM AND E_PERM \<noteq> 0"
  "E_MPTY AND E_EOS = 0" "E_MPTY \<noteq> 0" "E_MPTY AND E_TENT = 0" "E_MPTY AND E_MPTY \<noteq> 0"
  "E_MPTY AND E_PERM = 0" "E_EOS AND E_EOS \<noteq> 0"
  by (simp_all add: E_PERM_def E_EOS_def E_TENT_def E_MPTY_def)

lemma updateSegment_words:
  assumes len: "length ws = 512"
    and b: "idx + entryWords hdr \<le> 512"
    and fit: "0 < rem \<longrightarrow> idx + 3 * entryWords hdr \<le> 512"
    and upd: "updateSegment ws hdr idx N rem eosIdx (n1, n2, x) dateW = Inr ws'"
  shows "length ws' = 512"
    and "\<And>j. j < idx \<Longrightarrow> ws' ! j = ws ! j"
    and "ws' ! idx = E_PERM" "ws' ! (idx + 1) = n1" "ws' ! (idx + 2) = n2"
        "ws' ! (idx + 3) = x" "ws' ! (idx + 4) = of_nat N" "ws' ! (idx + 6) = dateW"
    and "\<And>j. rem = 0 \<Longrightarrow> idx + 7 \<le> j \<Longrightarrow> ws' ! j = ws ! j"
    and "0 < rem \<Longrightarrow> ws' ! (idx + entryWords hdr) = E_MPTY
          \<and> ws' ! (idx + entryWords hdr + 1) = 0 \<and> ws' ! (idx + entryWords hdr + 2) = 0
          \<and> ws' ! (idx + entryWords hdr + 3) = 0
          \<and> ws' ! (idx + entryWords hdr + 4) = of_nat rem
          \<and> ws' ! (idx + entryWords hdr + 6) = 0
          \<and> ws' ! (idx + 2 * entryWords hdr) = E_EOS"
proof -
  let ?ew = "entryWords hdr"
  have ew: "7 \<le> ?ew" by (rule entryWords_pos)
  define ws1 where "ws1 = ws[idx := E_PERM, idx + 1 := n1, idx + 2 := n2, idx + 3 := x,
                     idx + 4 := of_nat N, idx + 5 := 0, idx + 6 := dateW]"
  have l1: "length ws1 = 512" by (simp add: ws1_def len)
  have i6: "idx + 6 < 512" using b ew by linarith
  have e1: "ws1 ! idx = E_PERM" "ws1 ! (idx + 1) = n1" "ws1 ! (idx + 2) = n2"
        "ws1 ! (idx + 3) = x" "ws1 ! (idx + 4) = of_nat N" "ws1 ! (idx + 6) = dateW"
    using i6 by (simp_all add: ws1_def len)
  have o1: "ws1 ! j = ws ! j" if "j < idx \<or> idx + 7 \<le> j" for j
    using that by (auto simp: ws1_def)
  have all: "length ws' = 512 \<and>
      (\<forall>j. j < idx \<longrightarrow> ws' ! j = ws ! j) \<and> ws' ! idx = E_PERM \<and> ws' ! (idx + 1) = n1 \<and>
      ws' ! (idx + 2) = n2 \<and> ws' ! (idx + 3) = x \<and> ws' ! (idx + 4) = word_of_nat N \<and>
      ws' ! (idx + 6) = dateW \<and> (\<forall>j. rem = 0 \<longrightarrow> idx + 7 \<le> j \<longrightarrow> ws' ! j = ws ! j) \<and>
      (0 < rem \<longrightarrow> ws' ! (idx + entryWords hdr) = E_MPTY \<and>
       ws' ! (idx + entryWords hdr + 1) = 0 \<and> ws' ! (idx + entryWords hdr + 2) = 0 \<and>
       ws' ! (idx + entryWords hdr + 3) = 0 \<and>
       ws' ! (idx + entryWords hdr + 4) = word_of_nat rem \<and>
       ws' ! (idx + entryWords hdr + 6) = 0 \<and> ws' ! (idx + 2 * entryWords hdr) = E_EOS)"
  proof (cases "0 < rem")
    case False
    with upd have "ws' = ws1" by (simp add: updateSegment_def Let_def ws1_def)
    with False l1 e1 o1 show ?thesis
      by simp
  next
    case True
    with fit have f3: "idx + 3 * ?ew \<le> 512" by simp
    define ins where "ins = idx + ?ew"
    define neos where "neos = idx + 2 * ?ew"
    have m1: "(idx + ?ew) mod 65536 = ins" using b by (simp add: ins_def)
    have m2: "(ins + ?ew) mod 65536 = neos" using f3 by (simp add: ins_def neos_def)
    define ws2 where "ws2 = (if ins < eosIdx then shiftUp ws1 ?ew ins eosIdx else ws1)"
    define ws3 where "ws3 = ws2[ins := E_MPTY, ins + 1 := 0, ins + 2 := 0, ins + 3 := 0,
                            ins + 4 := of_nat rem, ins + 5 := 0, ins + 6 := 0]"
    define ws4 where "ws4 = fold (\<lambda>w a. a[neos + w := 0]) [0..<?ew] ws3"
    from upd True have w': "ws' = ws4[neos := E_EOS]"
      by (simp add: updateSegment_def Let_def m1 m2 ws1_def ws2_def ws3_def ws4_def
            split: if_splits)
    have l2: "length ws2 = 512" by (simp add: ws2_def shiftUp_facts l1)
    have o2: "ws2 ! j = ws1 ! j" if "j < ins + ?ew" for j
      using that by (simp add: ws2_def shiftUp_facts)
    have l3: "length ws3 = 512" by (simp add: ws3_def l2)
    have n6: "ins + 6 < 512" "ins + 6 < neos" "neos < 512"
      using f3 ew by (simp_all add: ins_def neos_def)
    have e3: "ws3 ! ins = E_MPTY" "ws3 ! (ins + 1) = 0" "ws3 ! (ins + 2) = 0"
        "ws3 ! (ins + 3) = 0" "ws3 ! (ins + 4) = of_nat rem" "ws3 ! (ins + 6) = 0"
      using n6 by (simp_all add: ws3_def l2)
    have o3: "ws3 ! j = ws2 ! j" if "j < ins" for j
      using that by (simp add: ws3_def)
    have l4: "length ws4 = 512" by (simp add: ws4_def clear_facts l3)
    have o4: "ws4 ! j = ws3 ! j" if "j < neos" for j
      using that by (simp add: ws4_def clear_facts)
    have o5: "ws' ! j = ws3 ! j" if "j < neos" for j
      using that by (simp add: w' o4)
    have lt: "idx + 6 < ins" "ins \<le> neos" "ins < ins + ?ew"
      using ew by (simp_all add: ins_def neos_def)
    have low: "ws' ! j = ws1 ! j" if "j < ins" for j
      using that lt by (simp add: o5 o3 o2)
    have r1: "length ws' = 512" by (simp add: w' l4)
    have r2: "ws' ! neos = E_EOS" using n6 by (simp add: w' l4)
    from True show ?thesis
      using lt n6 e1 o1 e3 r1 r2
      by (simp add: low o5 ins_def[symmetric] neos_def[symmetric])
  qed
  from all show "length ws' = 512" by simp
  from all show "\<And>j. j < idx \<Longrightarrow> ws' ! j = ws ! j" by simp
  from all show "ws' ! idx = E_PERM" "ws' ! (idx + 1) = n1" "ws' ! (idx + 2) = n2"
        "ws' ! (idx + 3) = x" "ws' ! (idx + 4) = of_nat N" "ws' ! (idx + 6) = dateW"
    by simp_all
  from all show "\<And>j. rem = 0 \<Longrightarrow> idx + 7 \<le> j \<Longrightarrow> ws' ! j = ws ! j" by simp
  from all show "0 < rem \<Longrightarrow> ws' ! (idx + entryWords hdr) = E_MPTY
          \<and> ws' ! (idx + entryWords hdr + 1) = 0 \<and> ws' ! (idx + entryWords hdr + 2) = 0
          \<and> ws' ! (idx + entryWords hdr + 3) = 0
          \<and> ws' ! (idx + entryWords hdr + 4) = of_nat rem
          \<and> ws' ! (idx + entryWords hdr + 6) = 0
          \<and> ws' ! (idx + 2 * entryWords hdr) = E_EOS" by simp
qed

section \<open>The split point and the new segment\<close>


















end
